theory Spec2Isabelle
  imports Main "HOL-Library.Word"
begin

unbundle bit_operations_syntax

section \<open>Go values: bytes, errors, outcomes, slices\<close>

type_synonym byte = "8 word"
type_synonym uint16 = "16 word"

text \<open>The error values of package gots that psi/pmt.go returns. \<open>ErrPIDNotInPMT\<close>
  carries the list of missing PIDs that \<open>fmt.Errorf\<close> formats into the message;
  \<open>ErrOther\<close> stands for any error a collaborator (the reader) hands back.\<close>

datatype error =
    ErrPMTParse
  | ErrParsePMTDescriptor
  | ErrShortPayload
  | ErrNoPayload
  | ErrPMTNotFound
  | ErrAccumulatorDone
  | ErrPIDNotInPMT "int list"
  | ErrOther nat

text \<open>The outcome of a call: it returns a value, returns an error, or panics at run time
  (index or slice bounds out of range, method call on a nil interface).\<close>

datatype 'a res = Ok 'a | Fail error | Panic

definition bindR :: "'a res \<Rightarrow> ('a \<Rightarrow> 'b res) \<Rightarrow> 'b res" where
  "bindR r f = (case r of Ok x \<Rightarrow> f x | Fail e \<Rightarrow> Fail e | Panic \<Rightarrow> Panic)"

text \<open>Go's index and slice expressions on a slice whose capacity equals its length:
  \<open>s[i]\<close>, \<open>s[lo:]\<close>, \<open>s[:hi]\<close> and \<open>s[lo:hi]\<close> panic outside the bounds.\<close>

definition index :: "'a list \<Rightarrow> nat \<Rightarrow> 'a res" where
  "index s i = (if i < length s then Ok (s ! i) else Panic)"

definition slice_from :: "'a list \<Rightarrow> nat \<Rightarrow> 'a list res" where
  "slice_from s lo = (if lo \<le> length s then Ok (drop lo s) else Panic)"

definition slice_to :: "'a list \<Rightarrow> nat \<Rightarrow> 'a list res" where
  "slice_to s hi = (if hi \<le> length s then Ok (take hi s) else Panic)"

definition slice :: "'a list \<Rightarrow> nat \<Rightarrow> nat \<Rightarrow> 'a list res" where
  "slice s lo hi = (if lo \<le> hi \<and> hi \<le> length s then Ok (take (hi - lo) (drop lo s)) else Panic)"

section \<open>PSI header accessors\<close>

text \<open>Modelled from the spec: \<open>PointerField\<close> is not under src/. The spec's glossary
  calls the pointer field the leading byte of a PSI payload; callers convert its result
  with \<open>int(...)\<close> and add the untyped constant 1 to it, so it is a \<open>uint8\<close>.\<close>

definition PointerField :: "byte list \<Rightarrow> byte res" where
  "PointerField psi = index psi 0"

text \<open>Modelled from the spec: \<open>tableID\<close> is not under src/. A section begins with
  a 1-byte table id.\<close>

definition tableID :: "byte list \<Rightarrow> byte res" where
  "tableID psi = index psi 0"

text \<open>The 12-bit field held in the low nibble of one byte and the whole of the next:
  \<open>uint16(hi&0x0f)<<8 | uint16(lo)\<close>, as pmt.go writes it for program_info_length
  and ES_info_length.\<close>

definition field12 :: "byte \<Rightarrow> byte \<Rightarrow> uint16" where
  "field12 hi lo = push_bit 8 (ucast (hi AND 0x0f)) OR ucast lo"

text \<open>Modelled from the spec: \<open>sectionLength\<close> is not under src/. After the table id
  comes a 2-byte field of 4 flag bits and the 12-bit section_length.\<close>

definition sectionLength :: "byte list \<Rightarrow> uint16 res" where
  "sectionLength psi =
     bindR (index psi 1) (\<lambda>hi. bindR (index psi 2) (\<lambda>lo. Ok (field12 hi lo)))"

text \<open>Modelled from the spec: \<open>SectionLength\<close> is not under src/. The CRC extractor
  reads the 12-bit section length field from the header region, the 4 bytes that
  \<open>PSIHeaderLen\<close> counts: pointer field, table id, flags and section length.\<close>

definition SectionLength :: "byte list \<Rightarrow> uint16 res" where
  "SectionLength psi = bindR (slice_from psi 1) sectionLength"

definition PSIHeaderLen :: uint16 where
  "PSIHeaderLen = 4"

definition CrcLen :: uint16 where
  "CrcLen = 4"

definition programInfoLengthOffset :: nat where
  "programInfoLengthOffset = 10"

definition pmtEsDescriptorStaticLen :: uint16 where
  "pmtEsDescriptorStaticLen = 5"

section \<open>The PMT completion predicate\<close>

lemma bindR_cong [fundef_cong]:
  "r = r' \<Longrightarrow> (\<And>x. r' = Ok x \<Longrightarrow> f x = f' x) \<Longrightarrow> bindR r f = bindR r' f'"
  by (simp add: bindR_def split: res.splits)

lemma field12_less: "field12 hi lo < 2 ^ 12"
proof -
  have m4: "(0x0f::byte) = mask 4"
    by (simp add: mask_eq_exp_minus_1)
  have "field12 hi lo = field12 hi lo AND mask 12"
    unfolding field12_def m4
    by (rule bit_word_eqI) (auto simp: bit_simps dest: bit_imp_le_length)
  also have "\<dots> < 2 ^ 12"
    by (rule and_mask_less') simp
  finally show ?thesis .
qed

lemma unat_field12: "unat (field12 hi lo) < 4096"
  using field12_less [of hi lo] by (simp add: word_less_nat_alt)

lemma unat_3_plus_field12: "unat (3 + field12 hi lo) = 3 + unat (field12 hi lo)"
  using unat_field12 [of hi lo] by (simp add: unat_add_lem [THEN iffD1])

lemma sectionLength_Ok:
  "sectionLength psi = Ok n \<Longrightarrow> n = field12 (psi ! 1) (psi ! 2) \<and> 2 < length psi"
  by (auto simp: sectionLength_def index_def bindR_def split: if_splits)

lemma sectionLength_eq:
  "2 < length psi \<Longrightarrow> sectionLength psi = Ok (field12 (psi ! 1) (psi ! 2))"
  by (simp add: sectionLength_def index_def bindR_def)

text \<open>The loop of \<open>PmtAccumulatorDoneFunc\<close> over \<open>sectionBytes\<close>.\<close>

function doneLoop :: "byte list \<Rightarrow> (bool \<times> error option) res" where
  "doneLoop sectionBytes =
     (if 2 < length sectionBytes \<and> sectionBytes ! 0 \<noteq> 0xFF then
        bindR (sectionLength sectionBytes) (\<lambda>tableLength.
          if int (length sectionBytes) < uint tableLength + 3 then Ok (False, None)
          else bindR (slice_from sectionBytes (unat (3 + tableLength))) doneLoop)
      else Ok (True, None))"
  by pat_completeness auto
termination
proof (relation "measure length", goal_cases)
  case 1
  show ?case by simp
next
  case (2 sectionBytes tableLength rest)
  from sectionLength_Ok [OF 2(2)]
  have tl: "tableLength = field12 (sectionBytes ! 1) (sectionBytes ! 2)"
    by simp
  from 2(4) have "rest = drop (unat (3 + tableLength)) sectionBytes"
    by (simp add: slice_from_def split: if_splits)
  moreover from 2(1) have "0 < length sectionBytes"
    by auto
  ultimately show ?case
    using tl by (simp add: unat_3_plus_field12)
qed

declare doneLoop.simps [simp del]

definition PmtAccumulatorDoneFunc :: "byte list \<Rightarrow> (bool \<times> error option) res" where
  "PmtAccumulatorDoneFunc b =
     (if length b < 1 then Ok (False, None)
      else bindR (PointerField b) (\<lambda>pf.
        let start = 1 + uint pf in
        if int (length b) < start then Ok (False, None)
        else bindR (slice_from b (nat start)) doneLoop))"

text \<open>The spec's reading of the scan, by positions in the buffer: from the position after
  the pointer field and the bytes it skips, a section that is complete (at least 3 bytes
  remain, the first is not the stuffing byte 0xFF, and its declared length plus 3 bytes
  are in the buffer) leads to the position after it.\<close>

definition declared :: "byte list \<Rightarrow> nat \<Rightarrow> nat" where
  "declared b pos = unat (field12 (b ! (pos + 1)) (b ! (pos + 2)))"

inductive scan_pos :: "byte list \<Rightarrow> nat \<Rightarrow> nat \<Rightarrow> bool" for b :: "byte list" and s :: nat where
  scan_start: "scan_pos b s s"
| scan_next: "scan_pos b s pos \<Longrightarrow> pos + 2 < length b \<Longrightarrow> b ! pos \<noteq> 0xFF \<Longrightarrow>
     pos + 3 + declared b pos \<le> length b \<Longrightarrow> scan_pos b s (pos + 3 + declared b pos)"

definition section_incomplete :: "byte list \<Rightarrow> nat \<Rightarrow> bool" where
  "section_incomplete b pos \<longleftrightarrow>
     pos + 2 < length b \<and> b ! pos \<noteq> 0xFF \<and> length b < pos + 3 + declared b pos"

lemma int_less_uint3: "(int n < uint (w::uint16) + 3) = (n < unat w + 3)"
  unfolding uint_nat by linarith
lemma int_less_uint1: "(int n < 1 + uint (w::byte)) = (n < 1 + unat w)"
  unfolding uint_nat by linarith
lemma nat_1_uint: "nat (1 + uint (w::byte)) = 1 + unat w"
  unfolding uint_nat by linarith

lemma scan_pos_trans:
  "scan_pos b s' pos \<Longrightarrow> scan_pos b s s' \<Longrightarrow> scan_pos b s pos"
  by (induction rule: scan_pos.induct) (auto intro: scan_pos.intros)

lemma scan_pos_first:
  "scan_pos b s pos \<Longrightarrow>
     pos = s \<or> (s + 2 < length b \<and> b ! s \<noteq> 0xFF \<and> s + 3 + declared b s \<le> length b \<and>
       scan_pos b (s + 3 + declared b s) pos)"
  by (induction rule: scan_pos.induct) (auto intro: scan_pos.intros)

lemma doneLoop_scan:
  "s \<le> length b \<Longrightarrow>
     doneLoop (drop s b) = Ok (\<not> (\<exists>pos. scan_pos b s pos \<and> section_incomplete b pos), None)"
proof (induction "length b - s" arbitrary: s rule: less_induct)
  case less
  show ?case
  proof (cases "2 < length (drop s b) \<and> drop s b ! 0 \<noteq> 0xFF")
    case False
    then have stop: "\<not> (s + 2 < length b \<and> b ! s \<noteq> 0xFF)"
      using less.prems by auto
    have "\<not> section_incomplete b pos" if "scan_pos b s pos" for pos
      using scan_pos_first [OF that] stop by (auto simp: section_incomplete_def)
    with False show ?thesis
      by (subst doneLoop.simps) auto
  next
    case True
    then have go: "s + 2 < length b" "b ! s \<noteq> 0xFF"
      using less.prems by auto
    have sl: "sectionLength (drop s b) = Ok (field12 (b ! (s + 1)) (b ! (s + 2)))"
      using go less.prems by (simp add: sectionLength_eq add.commute)
    let ?n = "field12 (b ! (s + 1)) (b ! (s + 2))"
    have dn: "declared b s = unat ?n"
      by (simp add: declared_def)
    show ?thesis
    proof (cases "length b < s + 3 + declared b s")
      case short: True
      then have "section_incomplete b s"
        using go by (simp add: section_incomplete_def)
      then have "\<exists>pos. scan_pos b s pos \<and> section_incomplete b pos"
        using scan_start by blast
      moreover have "int (length (drop s b)) < uint ?n + 3"
        unfolding int_less_uint3 using short less.prems dn by simp
      ultimately show ?thesis
        using True sl by (subst doneLoop.simps) (simp add: bindR_def)
    next
      case long: False
      let ?s' = "s + 3 + declared b s"
      have s': "?s' \<le> length b" using long by simp
      have "length b - ?s' < length b - s" using go by simp
      from less.hyps [OF this s']
      have IH: "doneLoop (drop ?s' b) = Ok (\<not> (\<exists>pos. scan_pos b ?s' pos \<and> section_incomplete b pos), None)" .
      have step: "scan_pos b s ?s'"
        using scan_next [OF scan_start, of s b] go s' by simp
      have eq: "(\<exists>pos. scan_pos b s pos \<and> section_incomplete b pos) \<longleftrightarrow>
                (\<exists>pos. scan_pos b ?s' pos \<and> section_incomplete b pos)"
      proof
        assume "\<exists>pos. scan_pos b s pos \<and> section_incomplete b pos"
        then obtain pos where p: "scan_pos b s pos" "section_incomplete b pos" by blast
        from scan_pos_first [OF p(1)] p(2) long show "\<exists>pos. scan_pos b ?s' pos \<and> section_incomplete b pos"
          by (auto simp: section_incomplete_def)
      next
        assume "\<exists>pos. scan_pos b ?s' pos \<and> section_incomplete b pos"
        then show "\<exists>pos. scan_pos b s pos \<and> section_incomplete b pos"
          using scan_pos_trans [OF _ step] by blast
      qed
      have nlt: "\<not> int (length (drop s b)) < uint ?n + 3"
        unfolding int_less_uint3 using long less.prems dn by simp
      have rest: "slice_from (drop s b) (unat (3 + ?n)) = Ok (drop ?s' b)"
        using long less.prems dn by (auto simp: slice_from_def unat_3_plus_field12 ac_simps)
      show ?thesis
        using True sl nlt rest IH eq by (subst doneLoop.simps) (simp add: bindR_def)
    qed
  qed
qed

text \<open>Claim C2. \<open>PmtAccumulatorDoneFunc\<close> never panics and never returns an error. It
  returns \<open>(false, nil)\<close> exactly when the buffer is empty, or shorter than 1 plus the
  pointer field, or the scan of the sections reaches a section whose declared 12-bit length
  plus 3 bytes is not contained in the buffer; in every other case it returns
  \<open>(true, nil)\<close>.\<close>

theorem PmtAccumulatorDoneFunc_contract:
  "(\<exists>d. PmtAccumulatorDoneFunc b = Ok (d, None)) \<and>
   (PmtAccumulatorDoneFunc b = Ok (False, None) \<longleftrightarrow>
      length b < 1 \<or> length b < 1 + unat (b ! 0) \<or>
      (\<exists>pos. scan_pos b (1 + unat (b ! 0)) pos \<and> section_incomplete b pos))"
proof (cases "length b < 1 \<or> length b < 1 + unat (b ! 0)")
  case True
  then show ?thesis
    by (auto simp: PmtAccumulatorDoneFunc_def PointerField_def index_def bindR_def Let_def
        int_less_uint1)
next
  case False
  then have "1 + unat (b ! 0) \<le> length b" by simp
  from doneLoop_scan [OF this] False show ?thesis
    by (auto simp: PmtAccumulatorDoneFunc_def PointerField_def index_def bindR_def Let_def
        slice_from_def int_less_uint1 nat_1_uint)
qed

section \<open>The CRC extractor\<close>

definition CanBuildPMT :: "byte list \<Rightarrow> uint16 \<Rightarrow> bool" where
  "CanBuildPMT payload secLen = (if int (length payload) < uint secLen then False else True)"

text \<open>\<open>binary.BigEndian.Uint32\<close> of the standard library: it reads four bytes, the
  first the most significant, and panics on a shorter slice.\<close>

definition BigEndian_Uint32 :: "byte list \<Rightarrow> 32 word res" where
  "BigEndian_Uint32 b =
     bindR (index b 3) (\<lambda>b3. bindR (index b 2) (\<lambda>b2. bindR (index b 1) (\<lambda>b1.
       bindR (index b 0) (\<lambda>b0.
         Ok (ucast b3 OR push_bit 8 (ucast b2) OR push_bit 16 (ucast b1) OR
             push_bit 24 (ucast b0))))))"

definition ExtractCRC :: "byte list \<Rightarrow> 32 word res" where
  "ExtractCRC payload =
     (if length payload < 4 then Fail ErrShortPayload
      else bindR (SectionLength payload) (\<lambda>secLen.
        if \<not> CanBuildPMT payload secLen then Fail ErrPMTParse
        else let end = PSIHeaderLen + secLen in
          bindR (slice payload (unat (end - 4)) (unat end)) BigEndian_Uint32))"

lemma int_less_uint: "(int n < uint (w::uint16)) = (n < unat w)"
  unfolding uint_nat by linarith

lemma SectionLength_eq:
  "4 \<le> length payload \<Longrightarrow> SectionLength payload = Ok (field12 (payload ! 2) (payload ! 3))"
  by (simp add: SectionLength_def slice_from_def bindR_def sectionLength_eq numeral_2_eq_2
      numeral_3_eq_3)

lemma unat_4_plus_field12: "unat (4 + field12 hi lo) = 4 + unat (field12 hi lo)"
  using unat_field12 [of hi lo] by (simp add: unat_add_lem [THEN iffD1])

text \<open>What \<open>ExtractCRC\<close> does in each of its four cases; \<open>n\<close> is the declared
  section length. The slice \<open>payload[end-4:end]\<close> is guarded by
  \<open>len(payload) \<ge> sectionLength\<close> only, so a payload of at least \<open>n\<close> and fewer than
  \<open>n + 4\<close> bytes passes the guard and the slice expression panics.\<close>

lemma ExtractCRC_cases:
  fixes payload :: "byte list"
  defines "n \<equiv> unat (field12 (payload ! 2) (payload ! 3))"
  shows "length payload < 4 \<Longrightarrow> ExtractCRC payload = Fail ErrShortPayload"
    and "4 \<le> length payload \<Longrightarrow> length payload < n \<Longrightarrow> ExtractCRC payload = Fail ErrPMTParse"
    and "4 \<le> length payload \<Longrightarrow> n \<le> length payload \<Longrightarrow> length payload < n + 4 \<Longrightarrow>
           ExtractCRC payload = Panic"
    and "4 \<le> length payload \<Longrightarrow> n + 4 \<le> length payload \<Longrightarrow>
           ExtractCRC payload = BigEndian_Uint32 (take 4 (drop n payload))"
proof -
  show "length payload < 4 \<Longrightarrow> ExtractCRC payload = Fail ErrShortPayload"
    by (simp add: ExtractCRC_def)
  show "4 \<le> length payload \<Longrightarrow> length payload < n \<Longrightarrow> ExtractCRC payload = Fail ErrPMTParse"
    by (simp add: ExtractCRC_def SectionLength_eq bindR_def CanBuildPMT_def int_less_uint n_def)
  show "4 \<le> length payload \<Longrightarrow> n \<le> length payload \<Longrightarrow> length payload < n + 4 \<Longrightarrow>
          ExtractCRC payload = Panic"
    by (simp add: ExtractCRC_def SectionLength_eq bindR_def CanBuildPMT_def int_less_uint n_def
        Let_def PSIHeaderLen_def slice_def unat_4_plus_field12)
  show "4 \<le> length payload \<Longrightarrow> n + 4 \<le> length payload \<Longrightarrow>
          ExtractCRC payload = BigEndian_Uint32 (take 4 (drop n payload))"
    by (simp add: ExtractCRC_def SectionLength_eq bindR_def CanBuildPMT_def int_less_uint n_def
        Let_def PSIHeaderLen_def slice_def unat_4_plus_field12)
qed

text \<open>Claim C6, at a failing input. The payload \<open>00 02 B0 04\<close> has 4 bytes and declares
  section length 4: it is neither shorter than 4 bytes nor shorter than its declared
  section length, so the claim promises the big-endian value of the 4 bytes ending at
  offset 8. The code passes both guards and panics in \<open>payload[4:8]\<close>.\<close>

theorem ExtractCRC_panics_inside_crc:
  "length [0x00, 0x02, 0xB0, 0x04 :: byte] = 4 \<and>
   SectionLength [0x00, 0x02, 0xB0, 0x04] = Ok 4 \<and>
   CanBuildPMT [0x00, 0x02, 0xB0, 0x04] 4 \<and>
   ExtractCRC [0x00, 0x02, 0xB0, 0x04] = Panic"
  by (simp add: ExtractCRC_def SectionLength_def sectionLength_def slice_from_def index_def
      bindR_def field12_def CanBuildPMT_def Let_def PSIHeaderLen_def slice_def)

section \<open>The PMT value\<close>

text \<open>Modelled from the spec: \<open>NewPmtDescriptor\<close> and \<open>NewPmtElementaryStream\<close>
  are not under src/. A descriptor is a tag and its payload bytes; an elementary stream
  is a stream type, an elementary PID and its descriptors in order.\<close>

datatype PmtDescriptor = NewPmtDescriptor (descTag: byte) (descData: "byte list")

record PmtElementaryStream =
  StreamType :: byte
  ElementaryPid :: int
  Descriptors :: "PmtDescriptor list"

definition NewPmtElementaryStream :: "byte \<Rightarrow> int \<Rightarrow> PmtDescriptor list \<Rightarrow> PmtElementaryStream" where
  "NewPmtElementaryStream streamType pid descriptors =
     \<lparr>StreamType = streamType, ElementaryPid = pid, Descriptors = descriptors\<rparr>"

record pmt =
  pids :: "int list"
  elementaryStreams :: "PmtElementaryStream list"
  versionNumber :: byte
  currentNextIndicator :: bool

definition Pids :: "pmt \<Rightarrow> int list" where
  "Pids p = pids p"

definition ElementaryStreams :: "pmt \<Rightarrow> PmtElementaryStream list" where
  "ElementaryStreams p = elementaryStreams p"

text \<open>The inner loop of \<open>RemoveElementaryStreams\<close>: the first stream whose PID is
  \<open>pid\<close> is cut out of the slice, and the loop breaks.\<close>

fun removeFirst :: "int \<Rightarrow> PmtElementaryStream list \<Rightarrow> PmtElementaryStream list" where
  "removeFirst pid [] = []"
| "removeFirst pid (s # ss) = (if pid = ElementaryPid s then ss else s # removeFirst pid ss)"

definition RemoveElementaryStreams :: "pmt \<Rightarrow> int list \<Rightarrow> pmt" where
  "RemoveElementaryStreams p removePids =
     (let ess = foldl (\<lambda>ess pid. removeFirst pid ess) (elementaryStreams p) removePids
      in p\<lparr>elementaryStreams := ess, pids := map ElementaryPid ess\<rparr>)"

fun pidIn :: "int list \<Rightarrow> int \<Rightarrow> bool" where
  "pidIn [] target = False"
| "pidIn (pid # rest) target = (if pid = target then True else pidIn rest target)"

text \<open>\<open>PIDExists\<close> runs the same loop as \<open>pidIn\<close>, over \<open>p.Pids()\<close>.\<close>

definition PIDExists :: "pmt \<Rightarrow> int \<Rightarrow> bool" where
  "PIDExists p pid = pidIn (Pids p) pid"

lemma pidIn_set: "pidIn ps target \<longleftrightarrow> target \<in> set ps"
  by (induction ps) auto

lemma removeFirst_absent:
  "pid \<notin> ElementaryPid ` set ess \<Longrightarrow> removeFirst pid ess = ess"
  by (induction ess) auto

lemma removeFirst_once:
  "count_list (map ElementaryPid ess) pid \<le> 1 \<Longrightarrow> pid \<notin> ElementaryPid ` set (removeFirst pid ess)"
proof (induction ess)
  case Nil
  then show ?case by simp
next
  case (Cons s ss)
  show ?case
  proof (cases "pid = ElementaryPid s")
    case True
    with Cons.prems have "count_list (map ElementaryPid ss) pid = 0"
      by simp
    then have "pid \<notin> set (map ElementaryPid ss)"
      by (simp add: count_list_0_iff)
    with True show ?thesis by simp
  next
    case False
    with Cons show ?thesis by simp
  qed
qed

text \<open>Claim C9 as stated fails when two elementary streams carry the same PID: each call
  removes the first of them only. Here both streams have PID 5; after one removal PID 5
  still exists, and the second removal changes the PMT again.\<close>

theorem RemoveElementaryStreams_duplicate_counterexample:
  "PIDExists (RemoveElementaryStreams
      \<lparr>pids = [5, 5],
       elementaryStreams = [NewPmtElementaryStream 0x1B 5 [], NewPmtElementaryStream 0x0F 5 []],
       versionNumber = 0, currentNextIndicator = True\<rparr> [5]) 5 \<and>
   RemoveElementaryStreams (RemoveElementaryStreams
      \<lparr>pids = [5, 5],
       elementaryStreams = [NewPmtElementaryStream 0x1B 5 [], NewPmtElementaryStream 0x0F 5 []],
       versionNumber = 0, currentNextIndicator = True\<rparr> [5]) [5] \<noteq>
   RemoveElementaryStreams
      \<lparr>pids = [5, 5],
       elementaryStreams = [NewPmtElementaryStream 0x1B 5 [], NewPmtElementaryStream 0x0F 5 []],
       versionNumber = 0, currentNextIndicator = True\<rparr> [5]"
  by (simp add: RemoveElementaryStreams_def PIDExists_def Pids_def NewPmtElementaryStream_def)

text \<open>Claim C9, amended: for every PMT value in which at most one elementary stream carries
  the PID \<open>pid\<close>, removing \<open>[pid]\<close> a second time leaves the PMT as the first removal
  left it, and after the first removal \<open>PIDExists pid\<close> is false and \<open>pid\<close> is neither
  in \<open>Pids()\<close> nor the PID of a stream in \<open>ElementaryStreams()\<close>.\<close>

theorem RemoveElementaryStreams_idempotent:
  assumes "count_list (map ElementaryPid (elementaryStreams p)) pid \<le> 1"
  shows "RemoveElementaryStreams (RemoveElementaryStreams p [pid]) [pid] =
           RemoveElementaryStreams p [pid] \<and>
         \<not> PIDExists (RemoveElementaryStreams p [pid]) pid \<and>
         pid \<notin> set (Pids (RemoveElementaryStreams p [pid])) \<and>
         pid \<notin> ElementaryPid ` set (ElementaryStreams (RemoveElementaryStreams p [pid]))"
proof -
  let ?ess = "removeFirst pid (elementaryStreams p)"
  from removeFirst_once [OF assms] have gone: "pid \<notin> ElementaryPid ` set ?ess" .
  then have "removeFirst pid ?ess = ?ess"
    by (rule removeFirst_absent)
  with gone show ?thesis
    by (simp add: RemoveElementaryStreams_def PIDExists_def Pids_def ElementaryStreams_def
        pidIn_set Let_def)
qed

theorem RemoveElementaryStreams_idempotent_witness:
  "count_list (map ElementaryPid (elementaryStreams
      \<lparr>pids = [5, 6],
       elementaryStreams = [NewPmtElementaryStream 0x1B 5 [], NewPmtElementaryStream 0x0F 6 []],
       versionNumber = 0, currentNextIndicator = True\<rparr>)) 5 \<le> 1 \<and>
   Pids (RemoveElementaryStreams
      \<lparr>pids = [5, 6],
       elementaryStreams = [NewPmtElementaryStream 0x1B 5 [], NewPmtElementaryStream 0x0F 6 []],
       versionNumber = 0, currentNextIndicator = True\<rparr> [5]) = [6] \<and>
   \<not> PIDExists (RemoveElementaryStreams
      \<lparr>pids = [5, 6],
       elementaryStreams = [NewPmtElementaryStream 0x1B 5 [], NewPmtElementaryStream 0x0F 6 []],
       versionNumber = 0, currentNextIndicator = True\<rparr> [5]) 5"
  using RemoveElementaryStreams_idempotent [of
      "\<lparr>pids = [5, 6],
       elementaryStreams = [NewPmtElementaryStream 0x1B 5 [], NewPmtElementaryStream 0x0F 6 []],
       versionNumber = 0, currentNextIndicator = True\<rparr>" 5]
  by (simp add: RemoveElementaryStreams_def Pids_def NewPmtElementaryStream_def)

section \<open>The section parser\<close>

text \<open>Calls of the parser may, on buffers of 64 KiB and more, wrap their 16-bit offsets and
  run on; their models return an option, \<open>None\<close> for a call that does not return.\<close>

definition bindO :: "'a res option \<Rightarrow> ('a \<Rightarrow> 'b res option) \<Rightarrow> 'b res option" where
  "bindO m f =
     (case m of None \<Rightarrow> None | Some (Ok x) \<Rightarrow> f x | Some (Fail e) \<Rightarrow> Some (Fail e)
      | Some Panic \<Rightarrow> Some Panic)"

text \<open>Modelled from the spec: \<open>tableVersionAndCNI\<close> is not under src/. The spec gives
  version_number as a 5-bit field and current_next_indicator as a 1-bit field of one
  reserved/version/CNI byte; in the section layout of ISO/IEC 13818-1 that byte follows
  the 2-byte program number, at offset 5 of the section.\<close>

definition tableVersionAndCNI :: "byte list \<Rightarrow> (byte \<times> bool) res" where
  "tableVersionAndCNI psi =
     bindR (index psi 5) (\<lambda>b. Ok (drop_bit 1 b AND 0x1f, b AND 0x01 \<noteq> 0))"

text \<open>\<open>int(hi&0x1f)<<8 | int(lo)\<close>: the 13-bit elementary PID, a Go \<open>int\<close>.\<close>

definition pid13 :: "byte \<Rightarrow> byte \<Rightarrow> int" where
  "pid13 hi lo = push_bit 8 (uint (hi AND 0x1f)) OR uint lo"

text \<open>One pass of the descriptor loop of \<open>parsePMTSection\<close>: tag, length, the bounds
  check on \<open>endPos\<close>, the slice; it returns the descriptor and the new
  \<open>descriptorOffset\<close>.\<close>

definition descStep :: "byte list \<Rightarrow> uint16 \<Rightarrow> uint16 \<Rightarrow> (PmtDescriptor \<times> uint16) res" where
  "descStep pmtBytes offset descriptorOffset =
     bindR (index pmtBytes (unat (offset + descriptorOffset))) (\<lambda>tag.
     bindR (index pmtBytes (unat (offset + (descriptorOffset + 1)))) (\<lambda>lenByte.
       let descriptorLength = (ucast lenByte :: uint16);
           descriptorOffset2 = descriptorOffset + 1 + 1;
           startPos = offset + descriptorOffset2;
           endPos = uint (offset + descriptorOffset2 + descriptorLength)
       in if endPos < int (length pmtBytes) then
            bindR (slice pmtBytes (unat startPos) (nat endPos)) (\<lambda>data.
              Ok (NewPmtDescriptor tag data, descriptorOffset2 + descriptorLength))
          else Fail ErrParsePMTDescriptor))"

partial_function (option) descLoop ::
  "byte list \<Rightarrow> uint16 \<Rightarrow> uint16 \<Rightarrow> uint16 \<Rightarrow> PmtDescriptor list \<Rightarrow> PmtDescriptor list res option"
where
  "descLoop pmtBytes offset infoLength descriptorOffset descriptors =
     (if descriptorOffset < infoLength then
        (case descStep pmtBytes offset descriptorOffset of
           Ok (d, descriptorOffset') \<Rightarrow>
             descLoop pmtBytes offset infoLength descriptorOffset' (descriptors @ [d])
         | Fail e \<Rightarrow> Some (Fail e)
         | Panic \<Rightarrow> Some Panic)
      else Some (Ok descriptors))"

declare descLoop.simps [code]

text \<open>The static part of an elementary-stream entry: stream type, PID, ES_info_length.\<close>

definition esHead :: "byte list \<Rightarrow> uint16 \<Rightarrow> (byte \<times> int \<times> uint16) res" where
  "esHead pmtBytes offset =
     bindR (index pmtBytes (unat offset)) (\<lambda>elementaryStreamType.
     bindR (index pmtBytes (unat (offset + 1))) (\<lambda>b1.
     bindR (index pmtBytes (unat (offset + 2))) (\<lambda>b2.
     bindR (index pmtBytes (unat (offset + 3))) (\<lambda>b3.
     bindR (index pmtBytes (unat (offset + 4))) (\<lambda>b4.
       Ok (elementaryStreamType, pid13 b1 b2, field12 b3 b4))))))"

text \<open>The loop of \<open>parsePMTSection\<close> over the elementary-stream entries; \<open>bound\<close> is
  \<open>PSIHeaderLen+sectionLength-pmtEsDescriptorStaticLen-CrcLen\<close>.\<close>

partial_function (option) esLoop ::
  "byte list \<Rightarrow> uint16 \<Rightarrow> uint16 \<Rightarrow> int list \<Rightarrow> PmtElementaryStream list \<Rightarrow>
     (int list \<times> PmtElementaryStream list) res option"
where
  "esLoop pmtBytes bound offset pidAcc streams =
     (if offset < bound then
        (case esHead pmtBytes offset of
           Panic \<Rightarrow> Some Panic
         | Fail e \<Rightarrow> Some (Fail e)
         | Ok (elementaryStreamType, elementaryPid, infoLength) \<Rightarrow>
             if infoLength \<noteq> 0 \<and>
                uint (infoLength + (offset + pmtEsDescriptorStaticLen)) < int (length pmtBytes)
             then
               (case descLoop pmtBytes (offset + pmtEsDescriptorStaticLen) infoLength 0 [] of
                  None \<Rightarrow> None
                | Some Panic \<Rightarrow> Some Panic
                | Some (Fail e) \<Rightarrow> Some (Fail e)
                | Some (Ok descriptors) \<Rightarrow>
                    esLoop pmtBytes bound (offset + pmtEsDescriptorStaticLen + infoLength)
                      (pidAcc @ [elementaryPid])
                      (streams @ [NewPmtElementaryStream elementaryStreamType elementaryPid
                                    descriptors]))
             else
               esLoop pmtBytes bound (offset + pmtEsDescriptorStaticLen)
                 (pidAcc @ [elementaryPid])
                 (streams @ [NewPmtElementaryStream elementaryStreamType elementaryPid []]))
      else Some (Ok (pidAcc, streams)))"

declare esLoop.simps [code]

definition parsePMTSection :: "pmt \<Rightarrow> byte list \<Rightarrow> pmt res option" where
  "parsePMTSection p pmtBytes =
     bindO (Some (sectionLength pmtBytes)) (\<lambda>secLen.
       if length pmtBytes \<le> programInfoLengthOffset + 1 then Some (Fail ErrPMTParse)
       else
         bindO (Some (tableVersionAndCNI pmtBytes)) (\<lambda>(version, cni).
         bindO (Some (index pmtBytes programInfoLengthOffset)) (\<lambda>hi.
         bindO (Some (index pmtBytes (programInfoLengthOffset + 1))) (\<lambda>lo.
           let programInfoLength = field12 hi lo in
           bindO (esLoop pmtBytes
                    (PSIHeaderLen + secLen - pmtEsDescriptorStaticLen - CrcLen)
                    (of_nat programInfoLengthOffset + 2 + programInfoLength) [] [])
             (\<lambda>(pidAcc, streams).
                Some (Ok (p\<lparr>pids := pidAcc, elementaryStreams := streams,
                            versionNumber := version, currentNextIndicator := cni\<rparr>)))))))"

text \<open>One pass of the loop of \<open>parseTables\<close>: a section with table id 2 is parsed from
  \<open>sectionBytes[0 : 3+tableLength]\<close>, and the loop goes on with
  \<open>sectionBytes[3+tableLength:]\<close>.\<close>

definition sectionStep :: "pmt \<Rightarrow> byte list \<Rightarrow> (pmt \<times> byte list) res option" where
  "sectionStep p sectionBytes =
     bindO (Some (sectionLength sectionBytes)) (\<lambda>tableLength.
     bindO (Some (tableID sectionBytes)) (\<lambda>tid.
     bindO (if tid = 0x2
            then bindO (Some (slice sectionBytes 0 (unat (3 + tableLength)))) (parsePMTSection p)
            else Some (Ok p)) (\<lambda>p'.
     bindO (Some (slice_from sectionBytes (unat (3 + tableLength)))) (\<lambda>rest.
       Some (Ok (p', rest))))))"

partial_function (option) parseTablesLoop :: "pmt \<Rightarrow> byte list \<Rightarrow> pmt res option" where
  "parseTablesLoop p sectionBytes =
     (if 2 < length sectionBytes \<and> sectionBytes ! 0 \<noteq> 0xFF then
        (case sectionStep p sectionBytes of
           None \<Rightarrow> None
         | Some Panic \<Rightarrow> Some Panic
         | Some (Fail e) \<Rightarrow> Some (Fail e)
         | Some (Ok (p', rest)) \<Rightarrow> parseTablesLoop p' rest)
      else Some (Ok p))"

declare parseTablesLoop.simps [code]

text \<open>\<open>1+PointerField(pmtBytes)\<close> is an addition of \<open>uint8\<close> values.\<close>

definition parseTables :: "pmt \<Rightarrow> byte list \<Rightarrow> pmt res option" where
  "parseTables p pmtBytes =
     bindO (Some (PointerField pmtBytes)) (\<lambda>pf.
     bindO (Some (slice_from pmtBytes (unat (1 + pf)))) (parseTablesLoop p))"

definition emptyPmt :: pmt where
  "emptyPmt = \<lparr>pids = [], elementaryStreams = [], versionNumber = 0,
               currentNextIndicator = False\<rparr>"

definition NewPMT :: "byte list \<Rightarrow> pmt res option" where
  "NewPMT pmtBytes = parseTables emptyPmt pmtBytes"

text \<open>Claim C1, at two failing inputs. \<open>parseTables\<close> has none of the bounds checks that
  \<open>PmtAccumulatorDoneFunc\<close> makes on the same traversal. On the empty buffer,
  \<open>PointerField\<close> indexes byte 0 and panics. On \<open>00 02 B0 0D\<close> (pointer field 0, table
  id 2, section_length 13, and nothing after the length field) the section has 3 of its
  16 bytes, and \<open>sectionBytes[0 : 3+tableLength]\<close> panics; the claim promises an error
  value.\<close>

theorem NewPMT_panics_on_truncated_section:
  "NewPMT [] = Some Panic \<and>
   sectionLength [0x02, 0xB0, 0x0D] = Ok 13 \<and>
   NewPMT [0x00, 0x02, 0xB0, 0x0D] = Some Panic"
  by (simp add: NewPMT_def parseTables_def PointerField_def index_def bindO_def slice_from_def
      parseTablesLoop.simps sectionStep_def sectionLength_def bindR_def tableID_def field12_def
      slice_def)

section \<open>Synthetic PMT buffers\<close>

text \<open>A well-formed PMT buffer, written out field by field as a test builds one: the
  12-bit lengths with their flag bits, the 13-bit PID under the three reserved bits, the
  tag-length-value descriptors. \<open>enc12 flags n\<close> is the two bytes of a 12-bit field
  \<open>n\<close> under the four flag bits \<open>flags\<close>.\<close>

definition enc12 :: "byte \<Rightarrow> nat \<Rightarrow> byte list" where
  "enc12 flags n = [flags OR ucast (drop_bit 8 (of_nat n :: uint16)), ucast (of_nat n :: uint16)]"

lemma unat16: "n < 65536 \<Longrightarrow> unat (of_nat n :: uint16) = n"
  by (simp add: unat_of_nat)

lemma of_nat_less_4096: "n < 4096 \<Longrightarrow> (of_nat n :: uint16) < 2 ^ 12"
  by (simp add: word_less_nat_alt unat16)

lemma field12_of_word:
  assumes "w < 2 ^ 12" and "flags AND 0x0f = 0"
  shows "field12 (flags OR ucast (drop_bit 8 w)) (ucast w) = w"
proof -
  have m4: "(0x0f::byte) = mask 4"
    by (simp add: mask_eq_exp_minus_1)
  have "(flags OR ucast (drop_bit 8 w)) AND 0x0f = ucast (drop_bit 8 w) AND 0x0f"
    using assms(2) by (simp add: bit.conj_disj_distrib2)
  then have "field12 (flags OR ucast (drop_bit 8 w)) (ucast w) =
      push_bit 8 (ucast (ucast (drop_bit 8 w) AND (0x0f::byte))) OR ucast (ucast w :: byte)"
    by (simp add: field12_def)
  also have "\<dots> = w AND mask 12"
    unfolding m4 by (rule bit_word_eqI) (auto simp: bit_simps dest: bit_imp_le_length)
  also have "\<dots> = w"
    using assms(1) by (simp add: less_mask_eq)
  finally show ?thesis .
qed

lemma field12_enc12:
  "n < 4096 \<Longrightarrow> flags AND 0x0f = 0 \<Longrightarrow> enc12 flags n = [hi, lo] \<Longrightarrow> field12 hi lo = of_nat n"
  using field12_of_word [OF of_nat_less_4096, of n flags] by (auto simp: enc12_def)

lemma pid13_of_word:
  assumes "w < 2 ^ 13"
  shows "pid13 (0xE0 OR ucast (drop_bit 8 w)) (ucast (w::uint16)) = uint w"
proof -
  have m5: "(0x1f::byte) = mask 5"
    by (simp add: mask_eq_exp_minus_1)
  have "(0xE0 OR ucast (drop_bit 8 w)) AND (0x1f::byte) = ucast (drop_bit 8 w) AND 0x1f"
    by (simp add: bit.conj_disj_distrib2)
  then have "pid13 (0xE0 OR ucast (drop_bit 8 w)) (ucast w) =
      push_bit 8 (uint (ucast (drop_bit 8 w) AND (0x1f::byte))) OR uint (ucast w :: byte)"
    by (simp add: pid13_def)
  also have "\<dots> = uint (w AND mask 13)"
    unfolding m5 by (rule bit_eqI) (auto simp: bit_simps dest: bit_imp_le_length)
  also have "\<dots> = uint w"
    using assms by (simp add: less_mask_eq)
  finally show ?thesis .
qed

lemma pid13_enc:
  assumes "0 \<le> p" "p < 8192"
  shows "pid13 (0xE0 OR ucast (drop_bit 8 (word_of_int p :: uint16))) (ucast (word_of_int p :: uint16)) = p"
proof -
  have u: "uint (word_of_int p :: uint16) = p"
    using assms by (simp add: uint_word_of_int)
  then have "(word_of_int p :: uint16) < 2 ^ 13"
    using assms by (simp add: word_less_def)
  from pid13_of_word [OF this] u show ?thesis by simp
qed

definition encDescriptor :: "PmtDescriptor \<Rightarrow> byte list" where
  "encDescriptor d = descTag d # of_nat (length (descData d)) # descData d"

definition encDescriptors :: "PmtDescriptor list \<Rightarrow> byte list" where
  "encDescriptors ds = concat (map encDescriptor ds)"

definition wfDescriptor :: "PmtDescriptor \<Rightarrow> bool" where
  "wfDescriptor d \<longleftrightarrow> length (descData d) \<le> 255"

lemma uint16: "n < 65536 \<Longrightarrow> uint (of_nat n :: uint16) = int n"
  by (simp add: uint_nat unat16)

lemma ucast_byte_of_nat: "n \<le> 255 \<Longrightarrow> (ucast (of_nat n :: byte) :: uint16) = of_nat n"
  by (simp add: word_eq_iff_unsigned [where ?'a = nat] unsigned_ucast_eq unat_of_nat
      take_bit_nat_eq_self)

lemma index_at:
  "n < length bs \<Longrightarrow> length bs < 65536 \<Longrightarrow> index bs (unat (of_nat n :: uint16)) = Ok (bs ! n)"
  by (simp add: index_def unat16)

lemma descStep_enc:
  assumes len: "length (pre @ encDescriptor d @ rest) < 65536"
    and rest: "rest \<noteq> []"
    and wf: "wfDescriptor d"
    and off: "off + k = length pre"
  shows "descStep (pre @ encDescriptor d @ rest) (of_nat off) (of_nat k) =
           Ok (d, of_nat (k + 2 + length (descData d)))"
proof -
  let ?n = "length (descData d)"
  let ?bs = "pre @ encDescriptor d @ rest"
  have n: "?n \<le> 255" using wf by (simp add: wfDescriptor_def)
  have total: "length ?bs = length pre + 2 + ?n + length rest"
    by (simp add: encDescriptor_def)
  have a0: "(of_nat off + of_nat k :: uint16) = of_nat (length pre)"
    by (simp flip: off)
  have a1: "(of_nat off + (of_nat k + 1) :: uint16) = of_nat (length pre + 1)"
    by (simp flip: off)
  have a2: "(of_nat off + (of_nat k + 1 + 1) :: uint16) = of_nat (length pre + 2)"
    by (simp flip: off)
  have a3: "(of_nat (length pre + 2) + of_nat ?n :: uint16) = of_nat (length pre + 2 + ?n)"
    by simp
  have k2: "(of_nat k + 1 + 1 + of_nat ?n :: uint16) = of_nat (k + 2 + ?n)"
    by simp
  have tag: "index ?bs (unat (of_nat (length pre) :: uint16)) = Ok (descTag d)"
    using len total by (simp add: unat16 index_def encDescriptor_def)
  have "?bs ! (length pre + 1) = of_nat ?n"
    by (simp add: nth_append encDescriptor_def)
  then have lenb: "index ?bs (unat (of_nat (length pre + 1) :: uint16)) = Ok (of_nat ?n)"
    using len total index_at [of "length pre + 1" ?bs] by simp
  have endp: "uint (of_nat (length pre + 2 + ?n) :: uint16) = int (length pre + 2 + ?n)"
    by (rule uint16) (use len total in simp)
  have inside: "int (length pre + 2 + ?n) < int (length ?bs)"
    using rest total by simp
  have "unat (of_nat (length pre + 2) :: uint16) = length pre + 2"
    by (rule unat16) (use len total in simp)
  moreover have "slice ?bs (length pre + 2) (length pre + 2 + ?n) = Ok (descData d)"
    by (simp add: slice_def encDescriptor_def)
  ultimately have sl: "slice ?bs (unat (of_nat (length pre + 2) :: uint16))
      (nat (int (length pre + 2 + ?n))) = Ok (descData d)"
    by (simp only: nat_int)
  show ?thesis
    unfolding descStep_def a0 a1
    by (simp only: tag lenb bindR_def res.case Let_def a2 ucast_byte_of_nat [OF n] a3 endp
        inside if_True sl k2 PmtDescriptor.collapse)
qed

lemma length_encDescriptor: "length (encDescriptor d) = 2 + length (descData d)"
  by (simp add: encDescriptor_def)

lemma encDescriptors_Cons: "encDescriptors (d # ds) = encDescriptor d @ encDescriptors ds"
  by (simp add: encDescriptors_def)

lemma of_nat_less16: "a < b \<Longrightarrow> b < 65536 \<Longrightarrow> (of_nat a :: uint16) < of_nat b"
  by (simp add: word_less_nat_alt unat16)

lemma of_nat_not_less16: "b \<le> a \<Longrightarrow> a < 65536 \<Longrightarrow> \<not> (of_nat a :: uint16) < of_nat b"
  by (simp add: word_less_nat_alt unat16)

lemma descLoop_prefix:
  assumes "length (pre @ encDescriptors ds @ rest) < 65536"
    and "rest \<noteq> []"
    and "list_all wfDescriptor ds"
    and "off + k = length pre"
    and "k + length (encDescriptors ds) < il + 2"
    and "il < 65536"
  shows "descLoop (pre @ encDescriptors ds @ rest) (of_nat off) (of_nat il) (of_nat k) acc =
         descLoop (pre @ encDescriptors ds @ rest) (of_nat off) (of_nat il)
           (of_nat (k + length (encDescriptors ds))) (acc @ ds)"
  using assms
proof (induction ds arbitrary: pre k acc)
  case Nil
  show ?case
    by (simp add: encDescriptors_def)
next
  case (Cons d ds)
  let ?n = "length (descData d)"
  let ?bs = "pre @ encDescriptors (d # ds) @ rest"
  have bs: "?bs = pre @ encDescriptor d @ (encDescriptors ds @ rest)"
    by (simp add: encDescriptors_Cons)
  have bs': "?bs = (pre @ encDescriptor d) @ encDescriptors ds @ rest"
    by (simp add: encDescriptors_Cons)
  have lt: "(of_nat k :: uint16) < of_nat il"
    by (rule of_nat_less16)
      (use Cons.prems in \<open>simp_all add: encDescriptors_Cons length_encDescriptor\<close>)
  have step: "descStep ?bs (of_nat off) (of_nat k) = Ok (d, of_nat (k + 2 + ?n))"
    unfolding bs
    by (rule descStep_enc) (use Cons.prems in \<open>simp_all add: encDescriptors_Cons\<close>)
  have IH: "descLoop ?bs (of_nat off) (of_nat il) (of_nat (k + 2 + ?n)) (acc @ [d]) =
            descLoop ?bs (of_nat off) (of_nat il)
              (of_nat ((k + 2 + ?n) + length (encDescriptors ds))) ((acc @ [d]) @ ds)"
    unfolding bs'
    by (rule Cons.IH)
      (use Cons.prems in \<open>simp_all add: encDescriptors_Cons length_encDescriptor\<close>)
  have il: "k + length (encDescriptors (d # ds)) = (k + 2 + ?n) + length (encDescriptors ds)"
    by (simp add: encDescriptors_Cons length_encDescriptor)
  show ?case
    apply (subst descLoop.simps)
    apply (simp only: lt if_True step res.case prod.case)
    apply (simp only: il IH)
    apply simp
    done
qed

lemma descLoop_enc:
  assumes "length (pre @ encDescriptors ds @ rest) < 65536"
    and "rest \<noteq> []"
    and "list_all wfDescriptor ds"
    and "off + k = length pre"
  shows "descLoop (pre @ encDescriptors ds @ rest) (of_nat off)
           (of_nat (k + length (encDescriptors ds))) (of_nat k) acc = Some (Ok (acc @ ds))"
proof -
  let ?il = "k + length (encDescriptors ds)"
  have "?il < 65536"
    using assms(1,4) by simp
  then have "descLoop (pre @ encDescriptors ds @ rest) (of_nat off) (of_nat ?il) (of_nat k) acc =
      descLoop (pre @ encDescriptors ds @ rest) (of_nat off) (of_nat ?il) (of_nat ?il) (acc @ ds)"
    by (intro descLoop_prefix assms) simp_all
  also have "\<dots> = Some (Ok (acc @ ds))"
    by (subst descLoop.simps) simp
  finally show ?thesis .
qed

text \<open>An elementary-stream entry: stream type, reserved bits and PID, reserved bits and
  ES_info_length, then the descriptors.\<close>

definition encStream :: "PmtElementaryStream \<Rightarrow> byte list" where
  "encStream es =
     StreamType es #
     (0xE0 OR ucast (drop_bit 8 (word_of_int (ElementaryPid es) :: uint16))) #
     ucast (word_of_int (ElementaryPid es) :: uint16) #
     enc12 0xF0 (length (encDescriptors (Descriptors es))) @
     encDescriptors (Descriptors es)"

definition encStreams :: "PmtElementaryStream list \<Rightarrow> byte list" where
  "encStreams ss = concat (map encStream ss)"

definition wfStream :: "PmtElementaryStream \<Rightarrow> bool" where
  "wfStream es \<longleftrightarrow>
     0 \<le> ElementaryPid es \<and> ElementaryPid es < 8192 \<and>
     list_all wfDescriptor (Descriptors es) \<and>
     length (encDescriptors (Descriptors es)) < 4096"

lemma length_enc12: "length (enc12 flags n) = 2"
  by (simp add: enc12_def)

lemma length_encStream: "length (encStream es) = 5 + length (encDescriptors (Descriptors es))"
  by (simp add: encStream_def length_enc12)

lemma encStreams_Cons: "encStreams (s # ss) = encStream s @ encStreams ss"
  by (simp add: encStreams_def)

lemma encDescriptors_empty: "encDescriptors ds = [] \<longleftrightarrow> ds = []"
  by (cases ds) (simp_all add: encDescriptors_def encDescriptor_def)

lemma esHead_enc:
  assumes len: "length (pre @ encStream s @ rest) < 65536"
    and wf: "wfStream s"
  shows "esHead (pre @ encStream s @ rest) (of_nat (length pre)) =
           Ok (StreamType s, ElementaryPid s, of_nat (length (encDescriptors (Descriptors s))))"
proof -
  let ?bs = "pre @ encStream s @ rest"
  let ?il = "length (encDescriptors (Descriptors s))"
  obtain hi lo where e12: "enc12 0xF0 ?il = [hi, lo]"
    by (simp add: enc12_def)
  have f12: "field12 hi lo = of_nat ?il"
    by (rule field12_enc12 [OF _ _ e12]) (use wf in \<open>simp_all add: wfStream_def\<close>)
  have total: "length pre + 5 \<le> length ?bs"
    by (simp add: length_encStream)
  have o: "(of_nat (length pre) + 1 :: uint16) = of_nat (length pre + 1)"
    "(of_nat (length pre) + 2 :: uint16) = of_nat (length pre + 2)"
    "(of_nat (length pre) + 3 :: uint16) = of_nat (length pre + 3)"
    "(of_nat (length pre) + 4 :: uint16) = of_nat (length pre + 4)"
    by simp_all
  have b: "?bs ! length pre = StreamType s"
    "?bs ! (length pre + 1) = 0xE0 OR ucast (drop_bit 8 (word_of_int (ElementaryPid s) :: uint16))"
    "?bs ! (length pre + 2) = ucast (word_of_int (ElementaryPid s) :: uint16)"
    "?bs ! (length pre + 3) = hi"
    "?bs ! (length pre + 4) = lo"
    by (simp_all add: nth_append encStream_def e12)
  have i: "index ?bs (unat (of_nat (length pre) :: uint16)) = Ok (?bs ! length pre)"
    "index ?bs (unat (of_nat (length pre + 1) :: uint16)) = Ok (?bs ! (length pre + 1))"
    "index ?bs (unat (of_nat (length pre + 2) :: uint16)) = Ok (?bs ! (length pre + 2))"
    "index ?bs (unat (of_nat (length pre + 3) :: uint16)) = Ok (?bs ! (length pre + 3))"
    "index ?bs (unat (of_nat (length pre + 4) :: uint16)) = Ok (?bs ! (length pre + 4))"
    by (rule index_at [OF _ len], use total in linarith)+
  have pid: "pid13 (0xE0 OR ucast (drop_bit 8 (word_of_int (ElementaryPid s) :: uint16)))
               (ucast (word_of_int (ElementaryPid s) :: uint16)) = ElementaryPid s"
    by (rule pid13_enc) (use wf in \<open>simp_all add: wfStream_def\<close>)
  show ?thesis
    unfolding esHead_def o
    by (simp only: i b bindR_def res.case pid f12)
qed

lemma length_last_encStream:
  "ss \<noteq> [] \<Longrightarrow> length (encStream (last ss)) \<le> length (encStreams ss)"
  by (induction ss) (auto simp: encStreams_Cons)

lemma esLoop_visit:
  assumes "length (pre @ encStreams ss @ rest) < 65536"
    and "rest \<noteq> []"
    and "list_all wfStream ss"
    and "ss = [] \<or> length pre + length (encStreams ss) < bnd + length (encStream (last ss))"
    and "bnd < 65536"
  shows "esLoop (pre @ encStreams ss @ rest) (of_nat bnd) (of_nat (length pre)) pacc sacc =
         esLoop (pre @ encStreams ss @ rest) (of_nat bnd)
           (of_nat (length pre + length (encStreams ss))) (pacc @ map ElementaryPid ss) (sacc @ ss)"
  using assms
proof (induction ss arbitrary: pre pacc sacc)
  case Nil
  show ?case
    by (simp add: encStreams_def)
next
  case (Cons s ss)
  let ?il = "length (encDescriptors (Descriptors s))"
  let ?bs = "pre @ encStreams (s # ss) @ rest"
  let ?hd = "[StreamType s,
      0xE0 OR ucast (drop_bit 8 (word_of_int (ElementaryPid s) :: uint16)),
      ucast (word_of_int (ElementaryPid s) :: uint16)] @ enc12 0xF0 ?il"
  have wf: "wfStream s" "list_all wfStream ss"
    using Cons.prems(3) by simp_all
  have es: "encStream s = ?hd @ encDescriptors (Descriptors s)"
    by (simp add: encStream_def)
  have bs1: "?bs = pre @ encStream s @ (encStreams ss @ rest)"
    by (simp add: encStreams_Cons)
  have bs2: "?bs = (pre @ ?hd) @ encDescriptors (Descriptors s) @ (encStreams ss @ rest)"
    by (simp add: encStreams_Cons es)
  have bs3: "?bs = (pre @ encStream s) @ encStreams ss @ rest"
    by (simp add: encStreams_Cons)
  have total: "length ?bs = length pre + 5 + ?il + length (encStreams ss) + length rest"
    by (simp add: encStreams_Cons length_encStream)
  have more: "0 < length rest"
    using Cons.prems(2) by simp
  have small: "length ?bs < 65536"
    using Cons.prems(1) .
  have "length pre < bnd"
  proof (cases "ss = []")
    case True
    then show ?thesis
      using Cons.prems(4) by (simp add: encStreams_def)
  next
    case False
    then have "length (encStream (last ss)) \<le> length (encStreams ss)"
      by (rule length_last_encStream)
    then show ?thesis
      using False Cons.prems(4) by (simp add: encStreams_Cons)
  qed
  then have lt: "(of_nat (length pre) :: uint16) < of_nat bnd"
    by (rule of_nat_less16) (rule Cons.prems(5))
  have later: "ss = [] \<or> length (pre @ encStream s) + length (encStreams ss) <
      bnd + length (encStream (last ss))"
    using Cons.prems(4) by (cases "ss = []") (simp_all add: encStreams_Cons)
  have head: "esHead ?bs (of_nat (length pre)) = Ok (StreamType s, ElementaryPid s, of_nat ?il)"
    unfolding bs1 by (rule esHead_enc) (use small wf in \<open>simp_all add: bs1\<close>)
  have o5: "(of_nat (length pre) + pmtEsDescriptorStaticLen :: uint16) = of_nat (length pre + 5)"
    by (simp add: pmtEsDescriptorStaticLen_def)
  have o5il: "(of_nat ?il + of_nat (length pre + 5) :: uint16) = of_nat (length pre + 5 + ?il)"
    "(of_nat (length pre + 5) + of_nat ?il :: uint16) = of_nat (length pre + 5 + ?il)"
    by simp_all
  have uin: "uint (of_nat (length pre + 5 + ?il) :: uint16) = int (length pre + 5 + ?il)"
    by (rule uint16) (use small total in simp)
  have "length pre + 5 + ?il < length ?bs"
    using total more by linarith
  then have inside: "int (length pre + 5 + ?il) < int (length ?bs)"
    by (simp only: of_nat_less_iff)
  have zero: "((of_nat ?il :: uint16) \<noteq> 0) = (?il \<noteq> 0)"
    using small total by (simp add: word_eq_iff_unsigned [where ?'a = nat] unat16)
  have next_pre: "length pre + 5 + ?il = length (pre @ encStream s)"
    by (simp add: length_encStream)
  have IH: "esLoop ?bs (of_nat bnd) (of_nat (length (pre @ encStream s)))
              (pacc @ [ElementaryPid s]) (sacc @ [s]) =
            esLoop ?bs (of_nat bnd) (of_nat (length (pre @ encStream s) + length (encStreams ss)))
              ((pacc @ [ElementaryPid s]) @ map ElementaryPid ss) ((sacc @ [s]) @ ss)"
    unfolding bs3
    by (rule Cons.IH [OF _ Cons.prems(2) wf(2) later Cons.prems(5)])
      (use Cons.prems(1) in \<open>simp add: encStreams_Cons\<close>)
  have fin: "length (pre @ encStream s) + length (encStreams ss) =
      length pre + length (encStreams (s # ss))"
    by (simp add: encStreams_Cons)
  show ?case
  proof (cases "?il = 0")
    case True
    then have nods: "Descriptors s = []"
      by (simp add: encDescriptors_empty)
    have s_eq: "NewPmtElementaryStream (StreamType s) (ElementaryPid s) [] = s"
      using nods by (simp add: NewPmtElementaryStream_def)
    have z: "(of_nat ?il :: uint16) = 0"
      using True by simp
    have np: "length pre + 5 = length (pre @ encStream s)"
      using True by (simp add: length_encStream)
    show ?thesis
      apply (subst esLoop.simps)
      apply (simp only: lt if_True head res.case prod.case z)
      apply (simp only: simp_thms if_False o5 s_eq np IH fin)
      apply simp
      done
  next
    case False
    have p1: "length ((pre @ ?hd) @ encDescriptors (Descriptors s) @ (encStreams ss @ rest)) < 65536"
      using small unfolding bs2 .
    have p2: "encStreams ss @ rest \<noteq> []"
      using Cons.prems(2) by auto
    have p3: "list_all wfDescriptor (Descriptors s)"
      using wf(1) by (simp add: wfStream_def)
    have p4: "(length pre + 5) + 0 = length (pre @ ?hd)"
      by (simp add: length_enc12)
    have ds: "descLoop ?bs (of_nat (length pre + 5)) (of_nat (0 + ?il)) (of_nat 0) [] =
                Some (Ok ([] @ Descriptors s))"
      unfolding bs2 by (rule descLoop_enc [OF p1 p2 p3 p4])
    then have ds': "descLoop ?bs (of_nat (length pre + 5)) (of_nat ?il) 0 [] =
                Some (Ok (Descriptors s))"
      by simp
    have s_eq: "NewPmtElementaryStream (StreamType s) (ElementaryPid s) (Descriptors s) = s"
      by (simp add: NewPmtElementaryStream_def)
    have nz: "(of_nat ?il :: uint16) \<noteq> 0"
      using False zero by simp
    show ?thesis
      apply (subst esLoop.simps)
      apply (simp only: lt if_True head res.case prod.case)
      apply (simp only: nz o5 o5il uin inside simp_thms if_True ds' option.case res.case s_eq)
      apply (simp only: next_pre IH fin)
      apply simp
      done
  qed
qed

lemma esLoop_prefix:
  assumes "length (pre @ encStreams ss @ rest) < 65536"
    and "rest \<noteq> []"
    and "list_all wfStream ss"
    and "length pre + length (encStreams ss) < bnd + 5"
    and "bnd < 65536"
  shows "esLoop (pre @ encStreams ss @ rest) (of_nat bnd) (of_nat (length pre)) pacc sacc =
         esLoop (pre @ encStreams ss @ rest) (of_nat bnd)
           (of_nat (length pre + length (encStreams ss))) (pacc @ map ElementaryPid ss) (sacc @ ss)"
proof (rule esLoop_visit [OF assms(1-3) _ assms(5)])
  show "ss = [] \<or> length pre + length (encStreams ss) < bnd + length (encStream (last ss))"
    using assms(4) by (simp add: length_encStream)
qed

lemma esLoop_enc:
  assumes "length (pre @ encStreams ss @ crc) < 65536"
    and "length crc = 4"
    and "list_all wfStream ss"
    and "bnd + 4 = length pre + length (encStreams ss)"
  shows "esLoop (pre @ encStreams ss @ crc) (of_nat bnd) (of_nat (length pre)) pacc sacc =
           Some (Ok (pacc @ map ElementaryPid ss, sacc @ ss))"
proof -
  let ?bs = "pre @ encStreams ss @ crc"
  have "crc \<noteq> []"
    using assms(2) by auto
  moreover have "bnd < 65536"
    using assms(1,4) by simp
  ultimately have "esLoop ?bs (of_nat bnd) (of_nat (length pre)) pacc sacc =
      esLoop ?bs (of_nat bnd) (of_nat (length pre + length (encStreams ss)))
        (pacc @ map ElementaryPid ss) (sacc @ ss)"
    using assms by (intro esLoop_prefix) simp_all
  moreover have "\<not> (of_nat (length pre + length (encStreams ss)) :: uint16) < of_nat bnd"
    by (rule of_nat_not_less16) (use assms in simp_all)
  ultimately show ?thesis
    by (subst (asm) (2) esLoop.simps) simp
qed

text \<open>A PMT section: table id 2, flags and section_length, the seven bytes from the
  program number to the PCR PID (\<open>fixed\<close>, the version byte is its third), reserved bits
  and program_info_length, the program descriptors, the stream entries, the CRC. An
  image adds the pointer field with the bytes it skips, and what follows the section
  (stuffing).\<close>

definition encSection :: "byte list \<Rightarrow> byte list \<Rightarrow> PmtElementaryStream list \<Rightarrow> byte list \<Rightarrow> byte list" where
  "encSection fixed progInfo streams crc =
     0x02 # enc12 0xB0 (13 + length progInfo + length (encStreams streams)) @
     fixed @ enc12 0xF0 (length progInfo) @ progInfo @ encStreams streams @ crc"

record pmtImage =
  imgStuffing :: "byte list"
  imgFixed :: "byte list"
  imgProgramInfo :: "byte list"
  imgStreams :: "PmtElementaryStream list"
  imgCrc :: "byte list"
  imgTrailing :: "byte list"

definition imgSection :: "pmtImage \<Rightarrow> byte list" where
  "imgSection img = encSection (imgFixed img) (imgProgramInfo img) (imgStreams img) (imgCrc img)"

definition encPMT :: "pmtImage \<Rightarrow> byte list" where
  "encPMT img = of_nat (length (imgStuffing img)) # imgStuffing img @ imgSection img @ imgTrailing img"

definition wfPMT :: "pmtImage \<Rightarrow> bool" where
  "wfPMT img \<longleftrightarrow>
     length (imgStuffing img) < 255 \<and>
     length (imgFixed img) = 7 \<and>
     length (imgCrc img) = 4 \<and>
     list_all wfStream (imgStreams img) \<and>
     13 + length (imgProgramInfo img) + length (encStreams (imgStreams img)) < 4096 \<and>
     (length (imgTrailing img) \<le> 2 \<or> hd (imgTrailing img) = 0xFF)"

definition parsedPmt :: "byte list \<Rightarrow> PmtElementaryStream list \<Rightarrow> pmt" where
  "parsedPmt fixed streams =
     \<lparr>pids = map ElementaryPid streams, elementaryStreams = streams,
      versionNumber = drop_bit 1 (fixed ! 2) AND 0x1f,
      currentNextIndicator = (fixed ! 2 AND 0x01 \<noteq> 0)\<rparr>"

lemma length_encSection:
  "length fixed = 7 \<Longrightarrow> length crc = 4 \<Longrightarrow>
   length (encSection fixed progInfo ss crc) = 3 + (13 + length progInfo + length (encStreams ss))"
  by (simp add: encSection_def length_enc12)

lemma sectionLength_encSection:
  assumes "13 + length progInfo + length (encStreams ss) < 4096"
  shows "sectionLength (encSection fixed progInfo ss crc @ rest) =
           Ok (of_nat (13 + length progInfo + length (encStreams ss)))"
proof -
  let ?sl = "13 + length progInfo + length (encStreams ss)"
  obtain hi lo where e: "enc12 0xB0 ?sl = [hi, lo]"
    by (simp add: enc12_def)
  have "field12 hi lo = of_nat ?sl"
    by (rule field12_enc12 [OF assms _ e]) simp
  then show ?thesis
    by (simp add: sectionLength_def index_def bindR_def encSection_def e)
qed

lemma parsePMTSection_enc:
  assumes fixed: "length fixed = 7" and crc: "length crc = 4"
    and wf: "list_all wfStream ss"
    and small: "13 + length progInfo + length (encStreams ss) < 4096"
  shows "parsePMTSection p (encSection fixed progInfo ss crc) =
           Some (Ok (p\<lparr>pids := map ElementaryPid ss, elementaryStreams := ss,
              versionNumber := drop_bit 1 (fixed ! 2) AND 0x1f,
              currentNextIndicator := (fixed ! 2 AND 0x01 \<noteq> 0)\<rparr>))"
proof -
  let ?pil = "length progInfo"
  let ?sl = "13 + ?pil + length (encStreams ss)"
  let ?sec = "encSection fixed progInfo ss crc"
  obtain hiS loS where eS: "enc12 0xB0 ?sl = [hiS, loS]"
    by (simp add: enc12_def)
  obtain hiP loP where eP: "enc12 0xF0 ?pil = [hiP, loP]"
    by (simp add: enc12_def)
  let ?pre = "[0x02, hiS, loS] @ fixed @ [hiP, loP] @ progInfo"
  have sec: "?sec = ?pre @ encStreams ss @ crc"
    by (simp add: encSection_def eS eP)
  have lpre: "length ?pre = 12 + ?pil"
    using fixed by simp
  have lsec: "length ?sec = 3 + ?sl"
    using fixed crc by (rule length_encSection)
  have sl: "sectionLength ?sec = Ok (of_nat ?sl)"
    using sectionLength_encSection [OF small, of fixed crc "[]"] by simp
  have long: "\<not> length ?sec \<le> programInfoLengthOffset + 1"
    using lsec by (simp add: programInfoLengthOffset_def)
  have v: "tableVersionAndCNI ?sec = Ok (drop_bit 1 (fixed ! 2) AND 0x1f, fixed ! 2 AND 0x01 \<noteq> 0)"
    using fixed by (simp add: tableVersionAndCNI_def index_def bindR_def sec nth_append
        numeral_2_eq_2)
  have hi: "index ?sec programInfoLengthOffset = Ok hiP"
    using fixed by (simp add: index_def sec nth_append programInfoLengthOffset_def)
  have lo: "index ?sec (programInfoLengthOffset + 1) = Ok loP"
    using fixed by (simp add: index_def sec nth_append programInfoLengthOffset_def)
  have pil: "field12 hiP loP = of_nat ?pil"
    by (rule field12_enc12 [OF _ _ eP]) (use small in simp_all)
  have bound: "PSIHeaderLen + of_nat ?sl - pmtEsDescriptorStaticLen - CrcLen = (of_nat (?sl - 5) :: uint16)"
    by (simp add: PSIHeaderLen_def pmtEsDescriptorStaticLen_def CrcLen_def)
  have start: "(of_nat programInfoLengthOffset + 2 + of_nat ?pil :: uint16) = of_nat (length ?pre)"
    unfolding lpre by (simp add: programInfoLengthOffset_def)
  have loop: "esLoop ?sec (of_nat (?sl - 5)) (of_nat (length ?pre)) [] [] =
      Some (Ok ([] @ map ElementaryPid ss, [] @ ss))"
    unfolding sec
    by (rule esLoop_enc) (use small crc wf fixed in simp_all)
  show ?thesis
    unfolding parsePMTSection_def
    apply (simp only: sl bindO_def option.case res.case long if_False v prod.case hi lo Let_def
        pil bound start loop)
    apply simp
    done
qed

lemma parseTablesLoop_enc:
  assumes fixed: "length fixed = 7" and crc: "length crc = 4"
    and wf: "list_all wfStream ss"
    and small: "13 + length progInfo + length (encStreams ss) < 4096"
    and trailing: "length trailing \<le> 2 \<or> hd trailing = 0xFF"
  shows "parseTablesLoop p (encSection fixed progInfo ss crc @ trailing) =
           Some (Ok (p\<lparr>pids := map ElementaryPid ss, elementaryStreams := ss,
              versionNumber := drop_bit 1 (fixed ! 2) AND 0x1f,
              currentNextIndicator := (fixed ! 2 AND 0x01 \<noteq> 0)\<rparr>))"
proof -
  let ?sl = "13 + length progInfo + length (encStreams ss)"
  let ?sec = "encSection fixed progInfo ss crc"
  let ?p' = "p\<lparr>pids := map ElementaryPid ss, elementaryStreams := ss,
              versionNumber := drop_bit 1 (fixed ! 2) AND 0x1f,
              currentNextIndicator := (fixed ! 2 AND 0x01 \<noteq> 0)\<rparr>"
  have lsec: "length ?sec = 3 + ?sl"
    using fixed crc by (rule length_encSection)
  have go: "2 < length (?sec @ trailing) \<and> (?sec @ trailing) ! 0 \<noteq> 0xFF"
    using lsec by (simp add: encSection_def)
  have sl: "sectionLength (?sec @ trailing) = Ok (of_nat ?sl)"
    by (rule sectionLength_encSection [OF small])
  have tid: "tableID (?sec @ trailing) = Ok 0x2"
    by (simp add: tableID_def index_def encSection_def)
  have u: "unat (3 + of_nat ?sl :: uint16) = 3 + ?sl"
    using small unat16 [of "3 + ?sl"] by simp
  have cut: "slice (?sec @ trailing) 0 (3 + ?sl) = Ok ?sec"
    using lsec by (simp add: slice_def)
  have rest: "slice_from (?sec @ trailing) (3 + ?sl) = Ok trailing"
    using lsec by (simp add: slice_from_def)
  have sec: "parsePMTSection p ?sec = Some (Ok ?p')"
    by (rule parsePMTSection_enc [OF fixed crc wf small])
  have step: "sectionStep p (?sec @ trailing) = Some (Ok (?p', trailing))"
    unfolding sectionStep_def
    by (simp only: sl tid bindO_def option.case res.case refl if_True u cut rest sec)
  have stop: "\<not> (2 < length trailing \<and> trailing ! 0 \<noteq> 0xFF)"
    using trailing by (cases trailing) auto
  have fin: "parseTablesLoop ?p' trailing = Some (Ok ?p')"
    by (subst parseTablesLoop.simps) (simp only: stop if_False)
  show ?thesis
    by (subst parseTablesLoop.simps)
      (simp only: go simp_thms if_True step option.case res.case prod.case fin)
qed

lemma NewPMT_encPMT:
  assumes "wfPMT img"
  shows "NewPMT (encPMT img) = Some (Ok (parsedPmt (imgFixed img) (imgStreams img)))"
proof -
  let ?n = "length (imgStuffing img)"
  have n: "?n < 255"
    using assms by (simp add: wfPMT_def)
  have pf: "PointerField (encPMT img) = Ok (of_nat ?n)"
    by (simp add: PointerField_def index_def encPMT_def)
  have "unat (of_nat (1 + ?n) :: byte) = (1 + ?n) mod 256"
    by (simp only: unat_of_nat) simp
  then have u: "unat (1 + of_nat ?n :: byte) = 1 + ?n"
    using n by simp
  have skip: "slice_from (encPMT img) (1 + ?n) = Ok (imgSection img @ imgTrailing img)"
    by (simp add: slice_from_def encPMT_def)
  have loop: "parseTablesLoop emptyPmt (imgSection img @ imgTrailing img) =
      Some (Ok (parsedPmt (imgFixed img) (imgStreams img)))"
    unfolding imgSection_def
    by (subst parseTablesLoop_enc) (use assms in \<open>simp_all add: wfPMT_def emptyPmt_def parsedPmt_def\<close>)
  show ?thesis
    unfolding NewPMT_def parseTables_def
    by (simp only: pf bindO_def option.case res.case u skip loop)
qed


lemma unat_byte_le: "unat (l::byte) \<le> 255"
proof -
  have "unat l < 2 ^ LENGTH(8)"
    by (rule unsigned_less)
  then show ?thesis by simp
qed

lemma ucast_byte_unat: "(ucast (l::byte) :: uint16) = of_nat (unat l)"
  using unat_byte_le [of l]
  by (simp add: word_eq_iff_unsigned [where ?'a = nat] unsigned_ucast_eq unat_of_nat
      take_bit_nat_eq_self)

lemma descStep_overrun:
  assumes len: "length (pre @ tag # l # rest) < 65280"
    and off: "off + k = length pre"
    and over: "length rest \<le> unat l"
  shows "descStep (pre @ tag # l # rest) (of_nat off) (of_nat k) = Fail ErrParsePMTDescriptor"
proof -
  let ?bs = "pre @ tag # l # rest"
  have total: "length ?bs = length pre + 2 + length rest"
    by simp
  have a0: "(of_nat off + of_nat k :: uint16) = of_nat (length pre)"
    by (simp flip: off)
  have a1: "(of_nat off + (of_nat k + 1) :: uint16) = of_nat (length pre + 1)"
    by (simp flip: off)
  have a3: "(of_nat off + (of_nat k + 1 + 1) + of_nat (unat l) :: uint16) =
      of_nat (length pre + 2 + unat l)"
    by (simp flip: off)
  have tag: "index ?bs (unat (of_nat (length pre) :: uint16)) = Ok tag"
    using index_at [of "length pre" ?bs] len by simp
  have "?bs ! (length pre + 1) = l"
    by (simp add: nth_append)
  then have lenb: "index ?bs (unat (of_nat (length pre + 1) :: uint16)) = Ok l"
    using len total index_at [of "length pre + 1" ?bs] by simp
  have endp: "uint (of_nat (length pre + 2 + unat l) :: uint16) = int (length pre + 2 + unat l)"
    by (rule uint16) (use len total unat_byte_le [of l] in linarith)
  have "\<not> length pre + 2 + unat l < length ?bs"
    using over total by linarith
  then have outside: "\<not> int (length pre + 2 + unat l) < int (length ?bs)"
    by (simp only: of_nat_less_iff not_False_eq_True)
  show ?thesis
    unfolding descStep_def a0 a1
    by (simp only: tag lenb bindR_def res.case Let_def ucast_byte_unat a3 endp outside if_False)
qed

lemma descLoop_overrun:
  assumes len: "length (pre @ encDescriptors ds @ tag # l # rest) < 65280"
    and wf: "list_all wfDescriptor ds"
    and off: "off + k = length pre"
    and reach: "k + length (encDescriptors ds) < il"
    and il: "il < 65536"
    and over: "length rest \<le> unat l"
  shows "descLoop (pre @ encDescriptors ds @ tag # l # rest) (of_nat off) (of_nat il) (of_nat k) acc =
           Some (Fail ErrParsePMTDescriptor)"
proof -
  let ?bs = "pre @ encDescriptors ds @ tag # l # rest"
  let ?k' = "k + length (encDescriptors ds)"
  have "descLoop ?bs (of_nat off) (of_nat il) (of_nat k) acc =
      descLoop ?bs (of_nat off) (of_nat il) (of_nat ?k') (acc @ ds)"
    by (rule descLoop_prefix) (use assms in simp_all)
  moreover have lt: "(of_nat ?k' :: uint16) < of_nat il"
    by (rule of_nat_less16 [OF reach il])
  moreover have "descStep ?bs (of_nat off) (of_nat ?k') = Fail ErrParsePMTDescriptor"
    using descStep_overrun [of "pre @ encDescriptors ds" tag l rest off ?k'] len off over
    by simp
  ultimately show ?thesis
    by (subst (asm) (2) descLoop.simps) (simp only: if_True res.case)
qed

lemma esHead_raw:
  assumes "length (pre @ st # ph # pl # hi # lo # rest) < 65536"
  shows "esHead (pre @ st # ph # pl # hi # lo # rest) (of_nat (length pre)) =
           Ok (st, pid13 ph pl, field12 hi lo)"
proof -
  let ?bs = "pre @ st # ph # pl # hi # lo # rest"
  have total: "length pre + 5 \<le> length ?bs"
    by simp
  have o: "(of_nat (length pre) + 1 :: uint16) = of_nat (length pre + 1)"
    "(of_nat (length pre) + 2 :: uint16) = of_nat (length pre + 2)"
    "(of_nat (length pre) + 3 :: uint16) = of_nat (length pre + 3)"
    "(of_nat (length pre) + 4 :: uint16) = of_nat (length pre + 4)"
    by simp_all
  have b: "?bs ! length pre = st" "?bs ! (length pre + 1) = ph" "?bs ! (length pre + 2) = pl"
    "?bs ! (length pre + 3) = hi" "?bs ! (length pre + 4) = lo"
    by (simp_all add: nth_append)
  have i: "index ?bs (unat (of_nat (length pre) :: uint16)) = Ok (?bs ! length pre)"
    "index ?bs (unat (of_nat (length pre + 1) :: uint16)) = Ok (?bs ! (length pre + 1))"
    "index ?bs (unat (of_nat (length pre + 2) :: uint16)) = Ok (?bs ! (length pre + 2))"
    "index ?bs (unat (of_nat (length pre + 3) :: uint16)) = Ok (?bs ! (length pre + 3))"
    "index ?bs (unat (of_nat (length pre + 4) :: uint16)) = Ok (?bs ! (length pre + 4))"
    by (rule index_at [OF _ assms], use total in linarith)+
  show ?thesis
    unfolding esHead_def o
    by (simp only: i b bindR_def res.case)
qed

text \<open>A section in which, after well-formed stream entries \<open>good\<close>, an entry with
  ES_info_length \<open>il\<close> holds well-formed descriptors \<open>gds\<close> and then a descriptor with
  tag \<open>tag\<close> and length byte \<open>l\<close>, of whose payload the section holds only
  \<open>rest\<close>.\<close>

definition overrunSection ::
  "byte list \<Rightarrow> byte list \<Rightarrow> PmtElementaryStream list \<Rightarrow> byte \<Rightarrow> byte \<Rightarrow> byte \<Rightarrow> nat \<Rightarrow>
     PmtDescriptor list \<Rightarrow> byte \<Rightarrow> byte \<Rightarrow> byte list \<Rightarrow> byte list" where
  "overrunSection fixed progInfo good st ph pl il gds tag l rest =
     (let entry = st # ph # pl # enc12 0xF0 il @ encDescriptors gds @ tag # l # rest
      in 0x02 # enc12 0xB0 (9 + length progInfo + length (encStreams good) + length entry) @
         fixed @ enc12 0xF0 (length progInfo) @ progInfo @ encStreams good @ entry)"

lemma parsePMTSection_overrun:
  assumes fixed: "length fixed = 7"
    and wfs: "list_all wfStream good"
    and wfd: "list_all wfDescriptor gds"
    and small: "length (overrunSection fixed progInfo good st ph pl il gds tag l rest) < 4099"
    and reach: "length (encDescriptors gds) < il"
    and guard: "12 + length progInfo + length (encStreams good) + 5 + il <
                  length (overrunSection fixed progInfo good st ph pl il gds tag l rest)"
    and entry: "12 + length progInfo + length (encStreams good) + 8 <
                  length (overrunSection fixed progInfo good st ph pl il gds tag l rest)"
    and over: "length rest \<le> unat l"
  shows "parsePMTSection p (overrunSection fixed progInfo good st ph pl il gds tag l rest) =
           Some (Fail ErrParsePMTDescriptor)"
proof -
  let ?pil = "length progInfo"
  let ?tail = "encDescriptors gds @ tag # l # rest"
  define sl where "sl = 9 + ?pil + length (encStreams good) + (5 + length ?tail)"
  let ?sl = sl
  let ?sec = "overrunSection fixed progInfo good st ph pl il gds tag l rest"
  obtain hiS loS where eS: "enc12 0xB0 ?sl = [hiS, loS]"
    by (simp add: enc12_def)
  obtain hiP loP where eP: "enc12 0xF0 ?pil = [hiP, loP]"
    by (simp add: enc12_def)
  obtain hiI loI where eI: "enc12 0xF0 il = [hiI, loI]"
    by (simp add: enc12_def)
  let ?pre = "[0x02, hiS, loS] @ fixed @ [hiP, loP] @ progInfo"
  let ?P = "length ?pre + length (encStreams good)"
  have "?sec = 0x02 # enc12 0xB0 sl @ fixed @ enc12 0xF0 ?pil @ progInfo @ encStreams good @
      st # ph # pl # enc12 0xF0 il @ ?tail"
    by (simp add: overrunSection_def Let_def sl_def length_enc12)
  then have sec: "?sec = ?pre @ encStreams good @ (st # ph # pl # hiI # loI # ?tail)"
    by (simp add: eS eP eI)
  have sec2: "?sec = (?pre @ encStreams good) @ st # ph # pl # hiI # loI # ?tail"
    by (simp add: sec)
  have sec3: "?sec = ((?pre @ encStreams good) @ [st, ph, pl, hiI, loI]) @ encDescriptors gds @
      tag # l # rest"
    by (simp add: sec)
  have lpre: "length ?pre = 12 + ?pil"
    using fixed by simp
  have lsec: "length ?sec = 3 + ?sl"
    using fixed by (simp add: sec sl_def)
  have sl4096: "?sl < 4096"
    using small lsec by linarith
  have il4096: "il < 4096"
    using guard small by linarith
  have "field12 hiS loS = of_nat ?sl"
    by (rule field12_enc12 [OF sl4096 _ eS]) simp
  then have sl: "sectionLength ?sec = Ok (of_nat ?sl)"
    by (simp add: sectionLength_def index_def bindR_def sec)
  have sl13: "13 < sl"
    using entry lsec by linarith
  have long: "\<not> length ?sec \<le> programInfoLengthOffset + 1"
    using lsec sl13 by (simp add: programInfoLengthOffset_def)
  have v: "tableVersionAndCNI ?sec = Ok (drop_bit 1 (fixed ! 2) AND 0x1f, fixed ! 2 AND 0x01 \<noteq> 0)"
    using fixed by (simp add: tableVersionAndCNI_def index_def bindR_def sec nth_append
        numeral_2_eq_2)
  have hi: "index ?sec programInfoLengthOffset = Ok hiP"
    using fixed by (simp add: index_def sec nth_append programInfoLengthOffset_def)
  have lo: "index ?sec (programInfoLengthOffset + 1) = Ok loP"
    using fixed by (simp add: index_def sec nth_append programInfoLengthOffset_def)
  have pil: "field12 hiP loP = of_nat ?pil"
    by (rule field12_enc12 [OF _ _ eP]) (use sl4096 in \<open>simp_all add: sl_def\<close>)
  have ilf: "field12 hiI loI = of_nat il"
    by (rule field12_enc12 [OF il4096 _ eI]) simp
  have bound: "PSIHeaderLen + of_nat ?sl - pmtEsDescriptorStaticLen - CrcLen = (of_nat (?sl - 5) :: uint16)"
    using sl13 by (simp add: PSIHeaderLen_def pmtEsDescriptorStaticLen_def CrcLen_def)
  have start: "(of_nat programInfoLengthOffset + 2 + of_nat ?pil :: uint16) = of_nat (length ?pre)"
    unfolding lpre by (simp add: programInfoLengthOffset_def)
  have sec65: "length ?sec < 65536" "length ?sec < 65280"
    using small by linarith+
  have pre_loop: "esLoop ?sec (of_nat (?sl - 5)) (of_nat (length ?pre)) [] [] =
      esLoop ?sec (of_nat (?sl - 5)) (of_nat ?P) ([] @ map ElementaryPid good) ([] @ good)"
    unfolding sec
    by (rule esLoop_prefix)
      (use sec65(1) wfs sl4096 fixed in \<open>simp_all add: sec [symmetric] sl_def\<close>)
  have lt: "(of_nat ?P :: uint16) < of_nat (?sl - 5)"
    by (rule of_nat_less16) (use entry lsec lpre sl4096 in linarith)+
  have head: "esHead ?sec (of_nat ?P) = Ok (st, pid13 ph pl, of_nat il)"
    using esHead_raw [of "?pre @ encStreams good" st ph pl hiI loI ?tail] sec65(1)
    unfolding sec2 [symmetric] ilf by simp
  have o5: "(of_nat ?P + pmtEsDescriptorStaticLen :: uint16) = of_nat (?P + 5)"
    by (simp add: pmtEsDescriptorStaticLen_def)
  have o5il: "(of_nat il + of_nat (?P + 5) :: uint16) = of_nat (?P + 5 + il)"
    by simp
  have uin: "uint (of_nat (?P + 5 + il) :: uint16) = int (?P + 5 + il)"
    by (rule uint16) (use guard lpre sec65(1) in linarith)
  have "?P + 5 + il < length ?sec"
    using guard lpre by linarith
  then have inside: "int (?P + 5 + il) < int (length ?sec)"
    by (simp only: of_nat_less_iff)
  have nz: "(of_nat il :: uint16) \<noteq> 0"
    using reach il4096 by (simp add: word_eq_iff_unsigned [where ?'a = nat] unat16)
  have q1: "length (((?pre @ encStreams good) @ [st, ph, pl, hiI, loI]) @ encDescriptors gds @
      tag # l # rest) < 65280"
    using sec65(2) unfolding sec3 .
  have q3: "(?P + 5) + 0 = length ((?pre @ encStreams good) @ [st, ph, pl, hiI, loI])"
    by simp
  have q4: "0 + length (encDescriptors gds) < il"
    using reach by simp
  have q5: "il < 65536"
    using il4096 by simp
  have "descLoop (((?pre @ encStreams good) @ [st, ph, pl, hiI, loI]) @ encDescriptors gds @
      tag # l # rest) (of_nat (?P + 5)) (of_nat il) (of_nat 0) [] = Some (Fail ErrParsePMTDescriptor)"
    by (rule descLoop_overrun [OF q1 wfd q3 q4 q5 over])
  then have ds: "descLoop ?sec (of_nat (?P + 5)) (of_nat il) 0 [] = Some (Fail ErrParsePMTDescriptor)"
    unfolding sec3 [symmetric] by simp
  have loop: "esLoop ?sec (of_nat (?sl - 5)) (of_nat (length ?pre)) [] [] =
      Some (Fail ErrParsePMTDescriptor)"
    unfolding pre_loop
    apply (subst esLoop.simps)
    apply (simp only: lt if_True head res.case prod.case)
    apply (simp only: nz o5 o5il uin inside simp_thms if_True ds option.case res.case)
    done
  show ?thesis
    unfolding parsePMTSection_def
    by (simp only: sl bindO_def option.case res.case long if_False v prod.case hi lo Let_def
        pil bound start loop)
qed

definition exampleImage :: pmtImage where
  "exampleImage =
     \<lparr>imgStuffing = [], imgFixed = [0x00, 0x01, 0xC1, 0x00, 0x00, 0xE0, 0x65],
      imgProgramInfo = [0x05, 0x04, 0x43, 0x55, 0x45, 0x49],
      imgStreams =
        [\<lparr>StreamType = 0x1B, ElementaryPid = 101,
           Descriptors = [NewPmtDescriptor 0x97 [], NewPmtDescriptor 0x0A [0x65, 0x6E, 0x67, 0x00]]\<rparr>,
         \<lparr>StreamType = 0x86, ElementaryPid = 220, Descriptors = []\<rparr>],
      imgCrc = [0x2B, 0x59, 0xBC, 0x22], imgTrailing = replicate 143 0xFF\<rparr>"

text \<open>Claim C5. For every well-formed synthetic PMT buffer encoding \<open>N\<close> elementary streams,
  each with zero or more descriptors, \<open>NewPMT\<close> succeeds, \<open>ElementaryStreams()\<close> and
  \<open>Pids()\<close> have length \<open>N\<close>, \<open>Pids()[i]\<close> is the PID of the \<open>i\<close>-th stream, and the
  streams are the encoded ones, in order.\<close>

theorem NewPMT_synthetic_roundtrip:
  assumes "wfPMT img"
  shows "\<exists>p. NewPMT (encPMT img) = Some (Ok p) \<and>
           length (ElementaryStreams p) = length (imgStreams img) \<and>
           length (Pids p) = length (imgStreams img) \<and>
           (\<forall>i < length (imgStreams img). Pids p ! i = ElementaryPid (ElementaryStreams p ! i)) \<and>
           ElementaryStreams p = imgStreams img"
  using NewPMT_encPMT [OF assms]
  by (simp add: parsedPmt_def ElementaryStreams_def Pids_def)

lemma wfPMT_exampleImage: "wfPMT exampleImage"
  by (simp add: wfPMT_def exampleImage_def wfStream_def wfDescriptor_def encStreams_def
      encStream_def encDescriptors_def encDescriptor_def enc12_def)

theorem NewPMT_synthetic_roundtrip_witness:
  "wfPMT exampleImage \<and>
   (\<exists>p. NewPMT (encPMT exampleImage) = Some (Ok p) \<and>
      length (ElementaryStreams p) = 2 \<and> length (Pids p) = 2 \<and>
      ElementaryStreams p = imgStreams exampleImage)"
proof -
  have "length (imgStreams exampleImage) = 2"
    by (simp add: exampleImage_def)
  with NewPMT_synthetic_roundtrip [OF wfPMT_exampleImage] wfPMT_exampleImage show ?thesis
    by auto
qed

section \<open>The PID list runs parallel to the stream list\<close>

text \<open>Whatever the buffer, a PMT that \<open>NewPMT\<close> returns has \<open>pids\<close> equal to the
  elementary PIDs of \<open>elementaryStreams\<close>, in order.\<close>

lemma esLoop_parallel:
  assumes "esLoop bs bound off pacc sacc = Some r"
  shows "\<forall>ps ss. r = Ok (ps, ss) \<longrightarrow> pacc = map ElementaryPid sacc \<longrightarrow> ps = map ElementaryPid ss"
proof (rule esLoop.raw_induct [where P = "\<lambda>bs bound off pacc sacc r.
        \<forall>ps ss. r = Ok (ps, ss) \<longrightarrow> pacc = map ElementaryPid sacc \<longrightarrow> ps = map ElementaryPid ss",
        OF _ assms], intro allI impI, goal_cases)
  case (1 f bs bound off pacc sacc r ps ss)
  have IH: "f bs' bound' off' (map ElementaryPid sacc') sacc' = Some (Ok (ps, ss)) \<Longrightarrow>
      ps = map ElementaryPid ss" for bs' bound' off' sacc'
    using 1(1) by blast
  show ?case
  proof (cases "off < bound")
    case False
    with 1(2,3,4) show ?thesis by auto
  next
    case True
    show ?thesis
    proof (cases "esHead bs off")
      case (Ok h)
      obtain st pid il where h: "h = (st, pid, il)"
        by (cases h) auto
      show ?thesis
      proof (cases "il \<noteq> 0 \<and> uint (il + (off + pmtEsDescriptorStaticLen)) < int (length bs)")
        case guard: True
        show ?thesis
        proof (cases "descLoop bs (off + pmtEsDescriptorStaticLen) il 0 []")
          case None
          with 1(2) True Ok h guard show ?thesis by simp
        next
          case (Some d)
          show ?thesis
          proof (cases d)
            case (Ok ds)
            with 1(2) True \<open>esHead bs off = Ok h\<close> h guard Some
            have "f bs bound (off + pmtEsDescriptorStaticLen + il)
                (map ElementaryPid (sacc @ [NewPmtElementaryStream st pid ds]))
                (sacc @ [NewPmtElementaryStream st pid ds]) = Some (Ok (ps, ss))"
              using 1(3,4) by (simp add: NewPmtElementaryStream_def)
            then show ?thesis by (rule IH)
          next
            case (Fail e)
            with 1(2,3) True \<open>esHead bs off = Ok h\<close> h guard Some show ?thesis by simp
          next
            case Panic
            with 1(2,3) True \<open>esHead bs off = Ok h\<close> h guard Some show ?thesis by simp
          qed
        qed
      next
        case noguard: False
        with 1(2) True Ok h
        have "f bs bound (off + pmtEsDescriptorStaticLen)
            (map ElementaryPid (sacc @ [NewPmtElementaryStream st pid []]))
            (sacc @ [NewPmtElementaryStream st pid []]) = Some (Ok (ps, ss))"
          using 1(3,4) by (simp add: NewPmtElementaryStream_def)
        then show ?thesis by (rule IH)
      qed
    next
      case (Fail e)
      with 1(2,3) True show ?thesis by simp
    next
      case Panic
      with 1(2,3) True show ?thesis by simp
    qed
  qed
qed

lemma bindO_Ok:
  "bindO m f = Some (Ok y) \<Longrightarrow> \<exists>x. m = Some (Ok x) \<and> f x = Some (Ok y)"
  by (simp add: bindO_def split: option.splits res.splits)

lemma bindO_Ok_iff:
  "bindO m f = Some (Ok y) \<longleftrightarrow> (\<exists>x. m = Some (Ok x) \<and> f x = Some (Ok y))"
  by (simp add: bindO_def split: option.splits res.splits)

lemma parsePMTSection_Ok:
  assumes "parsePMTSection p bs = Some (Ok p')"
  shows "\<exists>bound start ps ss v c. esLoop bs bound start [] [] = Some (Ok (ps, ss)) \<and>
     p' = p\<lparr>pids := ps, elementaryStreams := ss, versionNumber := v, currentNextIndicator := c\<rparr>"
  using assms
  apply (simp add: parsePMTSection_def bindO_Ok_iff Let_def split: if_splits)
  apply (elim exE conjE)
  apply (simp add: split_def)
  apply blast
  done

lemma parsePMTSection_parallel:
  assumes "parsePMTSection p bs = Some (Ok p')"
  shows "pids p' = map ElementaryPid (elementaryStreams p')"
proof -
  from parsePMTSection_Ok [OF assms] obtain bound start ps ss v c
    where loop: "esLoop bs bound start [] [] = Some (Ok (ps, ss))"
      and p': "p' = p\<lparr>pids := ps, elementaryStreams := ss, versionNumber := v,
        currentNextIndicator := c\<rparr>"
    by blast
  from esLoop_parallel [OF loop] have "ps = map ElementaryPid ss"
    by simp
  with p' show ?thesis by simp
qed


lemma sectionStep_Ok:
  assumes "sectionStep p bs = Some (Ok (p', rest))"
  shows "p' = p \<or> (\<exists>sec. parsePMTSection p sec = Some (Ok p'))"
  using assms
  apply (simp add: sectionStep_def bindO_Ok_iff)
  apply (elim exE conjE)
  apply (simp split: if_splits add: bindO_Ok_iff)
  apply blast
  done

lemma sectionStep_parallel:
  assumes "sectionStep p bs = Some (Ok (p', rest))"
    and "pids p = map ElementaryPid (elementaryStreams p)"
  shows "pids p' = map ElementaryPid (elementaryStreams p')"
proof -
  from sectionStep_Ok [OF assms(1)] show ?thesis
  proof
    assume "p' = p"
    with assms(2) show ?thesis by simp
  next
    assume "\<exists>sec. parsePMTSection p sec = Some (Ok p')"
    then obtain sec where "parsePMTSection p sec = Some (Ok p')" ..
    then show ?thesis by (rule parsePMTSection_parallel)
  qed
qed

lemma parseTablesLoop_parallel:
  assumes "parseTablesLoop p bs = Some r"
  shows "pids p = map ElementaryPid (elementaryStreams p) \<longrightarrow>
    (case r of Ok p' \<Rightarrow> pids p' = map ElementaryPid (elementaryStreams p') | Fail e \<Rightarrow> True
     | Panic \<Rightarrow> True)"
proof (rule parseTablesLoop.raw_induct [where P = "\<lambda>p bs r.
        pids p = map ElementaryPid (elementaryStreams p) \<longrightarrow>
        (case r of Ok p' \<Rightarrow> pids p' = map ElementaryPid (elementaryStreams p') | Fail e \<Rightarrow> True
         | Panic \<Rightarrow> True)", OF _ assms], intro impI, goal_cases)
  case (1 f p bs r)
  show ?case
  proof (cases "2 < length bs \<and> bs ! 0 \<noteq> 0xFF")
    case False
    with 1(2) have "r = Ok p"
      by simp
    with 1(3) show ?thesis
      by (simp only: res.case)
  next
    case True
    with 1(2) have body: "(case sectionStep p bs of None \<Rightarrow> None | Some Panic \<Rightarrow> Some Panic
        | Some (Fail e) \<Rightarrow> Some (Fail e) | Some (Ok (p', rest)) \<Rightarrow> f p' rest) = Some r"
      by (simp only: simp_thms if_True)
    show ?thesis
    proof (cases "sectionStep p bs")
      case None
      with body show ?thesis
        by (simp only: option.case option.distinct)
    next
      case (Some x)
      show ?thesis
      proof (cases x)
        case (Ok pr)
        obtain q rest where pr: "pr = (q, rest)"
          by (cases pr) auto
        from body have continue: "f q rest = Some r"
          unfolding Some Ok pr by (simp only: option.case res.case prod.case)
        from Some have step: "sectionStep p bs = Some (Ok (q, rest))"
          unfolding Ok pr .
        from sectionStep_parallel [OF step 1(3)] 1(1) [OF continue] show ?thesis
          by (rule rev_mp)
      next
        case (Fail e)
        from body have "r = Fail e"
          unfolding Some Fail by (simp only: option.case res.case option.inject)
        then show ?thesis
          by (simp only: res.case)
      next
        case Panic
        from body have "r = Panic"
          unfolding Some Panic by (simp only: option.case res.case option.inject)
        then show ?thesis
          by (simp only: res.case)
      qed
    qed
  qed
qed

lemma NewPMT_parallel:
  assumes "NewPMT b = Some (Ok p)"
  shows "pids p = map ElementaryPid (elementaryStreams p)"
proof -
  from assms obtain bs where "parseTablesLoop emptyPmt bs = Some (Ok p)"
    unfolding NewPMT_def parseTables_def bindO_Ok_iff by (elim exE conjE)
  from parseTablesLoop_parallel [OF this] show ?thesis
    by (simp add: emptyPmt_def)
qed


section \<open>Descriptor bounds\<close>

definition boundarySection :: "byte list" where
  "boundarySection =
     [0x02, 0xB0, 0x12, 0x00, 0x01, 0xC1, 0x00, 0x00, 0xE1, 0x00, 0xF0, 0x00,
      0x1B, 0xE1, 0x01, 0xF0, 0x02, 0x0A, 0x02, 0xAA, 0xBB]"

text \<open>Claim C7 as stated fails at the boundary. In this 21-byte section (section_length 18)
  the only stream entry has ES_info_length 2 and one descriptor, tag 0x0A with length 2 at
  offset 17; its payload is bytes 19 and 20 and ends exactly at the end of the section
  buffer, not past it. The claim has such a descriptor sliced; the code's check is
  \<open>endPos < len(pmtBytes)\<close>, and it returns the descriptor-parse error.\<close>

theorem parsePMTSection_boundary_counterexample:
  "length boundarySection = 21 \<and>
   slice boundarySection 19 (19 + unat (boundarySection ! 18)) = Ok [0xAA, 0xBB] \<and>
   parsePMTSection emptyPmt boundarySection = Some (Fail ErrParsePMTDescriptor)"
  by (simp add: boundarySection_def slice_def parsePMTSection_def bindO_def sectionLength_def
      index_def bindR_def field12_def programInfoLengthOffset_def tableVersionAndCNI_def
      PSIHeaderLen_def pmtEsDescriptorStaticLen_def CrcLen_def esLoop.simps esHead_def pid13_def
      descLoop.simps descStep_def Let_def)

definition overrunLayout ::
  "byte list \<Rightarrow> byte list \<Rightarrow> PmtElementaryStream list \<Rightarrow> byte \<Rightarrow> byte \<Rightarrow> byte \<Rightarrow> nat \<Rightarrow>
     PmtDescriptor list \<Rightarrow> byte \<Rightarrow> byte \<Rightarrow> byte list \<Rightarrow> bool" where
  "overrunLayout fixed progInfo good st ph pl il gds tag l rest \<longleftrightarrow>
     length fixed = 7 \<and> list_all wfStream good \<and> list_all wfDescriptor gds \<and>
     length (overrunSection fixed progInfo good st ph pl il gds tag l rest) < 4099 \<and>
     length (encDescriptors gds) < il \<and>
     12 + length progInfo + length (encStreams good) + 5 + il <
       length (overrunSection fixed progInfo good st ph pl il gds tag l rest) \<and>
     12 + length progInfo + length (encStreams good) + 8 <
       length (overrunSection fixed progInfo good st ph pl il gds tag l rest)"

text \<open>A section whose stream entries are followed by \<open>tail\<close>, where the CRC stands
  in a well-formed section; section_length is the one of the buffer. With a tail of fewer
  than four bytes the last descriptor ends fewer than four bytes before the end of the
  section buffer. The layout asks for a tail of one to eight bytes (at least one byte
  follows the last entry, and the loop over the entries stops after the last one) and for a
  last entry that begins before the bound of that loop.\<close>

definition tailSection :: "byte list \<Rightarrow> byte list \<Rightarrow> PmtElementaryStream list \<Rightarrow> byte list \<Rightarrow> byte list" where
  "tailSection fixed progInfo streams tail =
     0x02 # enc12 0xB0 (9 + length progInfo + length (encStreams streams) + length tail) @
     fixed @ enc12 0xF0 (length progInfo) @ progInfo @ encStreams streams @ tail"

definition tailLayout :: "byte list \<Rightarrow> byte list \<Rightarrow> PmtElementaryStream list \<Rightarrow> byte list \<Rightarrow> bool" where
  "tailLayout fixed progInfo streams tail \<longleftrightarrow>
     length fixed = 7 \<and> list_all wfStream streams \<and>
     1 \<le> length tail \<and> length tail \<le> 8 \<and>
     length (tailSection fixed progInfo streams tail) < 4099 \<and>
     (streams = [] \<or> 8 < length (encStream (last streams)) + length tail)"

lemma parsePMTSection_tail:
  assumes "tailLayout fixed progInfo ss tail"
  shows "parsePMTSection p (tailSection fixed progInfo ss tail) =
           Some (Ok (p\<lparr>pids := map ElementaryPid ss, elementaryStreams := ss,
              versionNumber := drop_bit 1 (fixed ! 2) AND 0x1f,
              currentNextIndicator := (fixed ! 2 AND 0x01 \<noteq> 0)\<rparr>))"
proof -
  let ?pil = "length progInfo"
  define sl where "sl = 9 + ?pil + length (encStreams ss) + length tail"
  let ?sec = "tailSection fixed progInfo ss tail"
  have fixed: "length fixed = 7" and wf: "list_all wfStream ss"
    and tail: "1 \<le> length tail" "length tail \<le> 8"
    and visit: "ss = [] \<or> 8 < length (encStream (last ss)) + length tail"
    using assms by (simp_all add: tailLayout_def)
  obtain hiS loS where eS: "enc12 0xB0 sl = [hiS, loS]"
    by (simp add: enc12_def)
  obtain hiP loP where eP: "enc12 0xF0 ?pil = [hiP, loP]"
    by (simp add: enc12_def)
  let ?pre = "[0x02, hiS, loS] @ fixed @ [hiP, loP] @ progInfo"
  have sec: "?sec = ?pre @ encStreams ss @ tail"
    unfolding tailSection_def sl_def [symmetric] by (simp add: eS eP)
  have lpre: "length ?pre = 12 + ?pil"
    using fixed by simp
  have lsec: "length ?sec = 3 + sl"
    using fixed by (simp add: sec sl_def)
  have small: "sl < 4096"
    using assms lsec by (simp add: tailLayout_def)
  have "field12 hiS loS = of_nat sl"
    by (rule field12_enc12 [OF small _ eS]) simp
  then have sl: "sectionLength ?sec = Ok (of_nat sl)"
    by (simp add: sectionLength_def index_def bindR_def sec)
  have long: "\<not> length ?sec \<le> programInfoLengthOffset + 1"
    using lsec tail by (simp add: programInfoLengthOffset_def sl_def)
  have v: "tableVersionAndCNI ?sec = Ok (drop_bit 1 (fixed ! 2) AND 0x1f, fixed ! 2 AND 0x01 \<noteq> 0)"
    using fixed by (simp add: tableVersionAndCNI_def index_def bindR_def sec nth_append
        numeral_2_eq_2)
  have hi: "index ?sec programInfoLengthOffset = Ok hiP"
    using fixed by (simp add: index_def sec nth_append programInfoLengthOffset_def)
  have lo: "index ?sec (programInfoLengthOffset + 1) = Ok loP"
    using fixed by (simp add: index_def sec nth_append programInfoLengthOffset_def)
  have pil: "field12 hiP loP = of_nat ?pil"
    by (rule field12_enc12 [OF _ _ eP]) (use small in \<open>simp_all add: sl_def\<close>)
  have sl10: "10 \<le> sl"
    using tail by (simp add: sl_def)
  have bound: "PSIHeaderLen + of_nat sl - pmtEsDescriptorStaticLen - CrcLen = (of_nat (sl - 5) :: uint16)"
    using sl10 by (simp add: PSIHeaderLen_def pmtEsDescriptorStaticLen_def CrcLen_def)
  have start: "(of_nat programInfoLengthOffset + 2 + of_nat ?pil :: uint16) = of_nat (length ?pre)"
    unfolding lpre by (simp add: programInfoLengthOffset_def)
  have walk: "esLoop (?pre @ encStreams ss @ tail) (of_nat (sl - 5)) (of_nat (length ?pre)) [] [] =
      esLoop (?pre @ encStreams ss @ tail) (of_nat (sl - 5))
        (of_nat (length ?pre + length (encStreams ss))) ([] @ map ElementaryPid ss) ([] @ ss)"
  proof (rule esLoop_visit)
    show "length (?pre @ encStreams ss @ tail) < 65536"
      using small lsec unfolding sec by simp
    show "tail \<noteq> []"
      using tail by auto
    show "list_all wfStream ss"
      by (rule wf)
    show "ss = [] \<or> length ?pre + length (encStreams ss) < sl - 5 + length (encStream (last ss))"
      using visit fixed sl10 by (auto simp: sl_def)
    show "sl - 5 < 65536"
      using small by simp
  qed
  have stop: "\<not> (of_nat (length ?pre + length (encStreams ss)) :: uint16) < of_nat (sl - 5)"
    by (rule of_nat_not_less16) (use small fixed tail in \<open>simp_all add: sl_def\<close>)
  have loop: "esLoop ?sec (of_nat (sl - 5)) (of_nat (length ?pre)) [] [] =
      Some (Ok ([] @ map ElementaryPid ss, [] @ ss))"
    unfolding sec walk using stop by (subst esLoop.simps) simp
  show ?thesis
    unfolding parsePMTSection_def
    apply (simp only: sl bindO_def option.case res.case long if_False v prod.case hi lo Let_def
        pil bound start loop)
    apply simp
    done
qed

text \<open>A descriptor fits the buffer when its tag and its length byte stand in the buffer,
  the length byte is the length of its payload, and the payload is the bytes after the
  length byte and ends before the end of the buffer.\<close>

definition descFits :: "byte list \<Rightarrow> PmtDescriptor \<Rightarrow> bool" where
  "descFits b d \<longleftrightarrow>
     (\<exists>pos < length b. b ! pos = descTag d \<and> pos + 1 < length b \<and>
        unat (b ! (pos + 1)) = length (descData d) \<and>
        pos + 2 + length (descData d) < length b \<and>
        descData d = take (length (descData d)) (drop (pos + 2) b))"

lemma unat_succ16: "unat (x :: uint16) + 1 < 65536 \<Longrightarrow> unat (x + 1) = unat x + 1"
  using unat_add_lem [of x 1] by simp

lemma descStep_fits:
  assumes short: "length b < 65536" and step: "descStep b off k = Ok (d, k')"
  shows "descFits b d"
proof -
  define t where "t = unat (off + k)"
  define l where "l = unat (b ! (t + 1))"
  from step have s1: "bindR (index b t) (\<lambda>tag.
     bindR (index b (unat (off + (k + 1)))) (\<lambda>lenByte.
       let descriptorLength = (ucast lenByte :: uint16);
           descriptorOffset2 = k + 1 + 1;
           startPos = off + descriptorOffset2;
           endPos = uint (off + descriptorOffset2 + descriptorLength)
       in if endPos < int (length b) then
            bindR (slice b (unat startPos) (nat endPos)) (\<lambda>data.
              Ok (NewPmtDescriptor tag data, descriptorOffset2 + descriptorLength))
          else Fail ErrParsePMTDescriptor)) = Ok (d, k')"
    unfolding descStep_def t_def .
  have tag_in: "t < length b"
    using s1 by (cases "t < length b") (simp_all add: index_def bindR_def)
  then have i1: "index b t = Ok (b ! t)"
    by (simp add: index_def)
  have "unat (off + k + 1) = t + 1"
    using short tag_in unat_succ16 [of "off + k"] by (simp add: t_def)
  then have t1: "unat (off + (k + 1)) = t + 1"
    by (simp only: add.assoc)
  from s1 have s2: "bindR (index b (t + 1)) (\<lambda>lenByte.
       let descriptorLength = (ucast lenByte :: uint16);
           descriptorOffset2 = k + 1 + 1;
           startPos = off + descriptorOffset2;
           endPos = uint (off + descriptorOffset2 + descriptorLength)
       in if endPos < int (length b) then
            bindR (slice b (unat startPos) (nat endPos)) (\<lambda>data.
              Ok (NewPmtDescriptor (b ! t) data, descriptorOffset2 + descriptorLength))
          else Fail ErrParsePMTDescriptor) = Ok (d, k')"
    by (simp only: i1 t1 bindR_def [of "Ok _"] res.case)
  have len_in: "t + 1 < length b"
    using s2 by (cases "t + 1 < length b") (simp_all add: index_def bindR_def)
  then have i2: "index b (t + 1) = Ok (b ! (t + 1))"
    by (simp add: index_def)
  have "unat (off + (k + 1) + 1) = t + 1 + 1"
    using short len_in unat_succ16 [of "off + (k + 1)"] by (simp add: t1)
  then have t2: "unat (off + (k + 1 + 1)) = t + 2"
    by (simp only: add.assoc one_add_one)
  have l255: "l \<le> 255"
    unfolding l_def by (rule unat_byte_le)
  have "unat (of_nat l :: uint16) = l"
    by (rule unat16) (use l255 in linarith)
  then have ul: "unat (ucast (b ! (t + 1)) :: uint16) = l"
    by (simp only: ucast_byte_unat l_def)
  let ?e = "off + (k + 1 + 1) + (ucast (b ! (t + 1)) :: uint16)"
  from s2
  have body: "(if uint ?e < int (length b) then
      bindR (slice b (t + 2) (nat (uint ?e))) (\<lambda>data.
        Ok (NewPmtDescriptor (b ! t) data, k + 1 + 1 + ucast (b ! (t + 1))))
      else Fail ErrParsePMTDescriptor) = Ok (d, k')"
    by (simp only: i2 bindR_def [of "Ok _"] res.case Let_def t2)
  then have inside: "uint ?e < int (length b)"
    by (cases "uint ?e < int (length b)") (simp_all only: if_True if_False res.distinct)
  with body have cut: "bindR (slice b (t + 2) (nat (uint ?e))) (\<lambda>data.
        Ok (NewPmtDescriptor (b ! t) data, k + 1 + 1 + ucast (b ! (t + 1)))) = Ok (d, k')"
    by (simp only: if_True)
  then have order: "t + 2 \<le> nat (uint ?e)"
    by (cases "t + 2 \<le> nat (uint ?e)") (simp_all add: slice_def bindR_def)
  have "unat ?e = (unat (off + (k + 1 + 1)) + unat (ucast (b ! (t + 1)) :: uint16)) mod 2 ^ LENGTH(16)"
    by (rule unat_word_ariths(1))
  then have e: "unat ?e = (t + 2 + l) mod 65536"
    by (simp only: t2 ul) simp
  have un: "nat (uint ?e) = unat ?e"
    by (rule unat_eq_nat_uint [symmetric])
  have nowrap: "t + 2 + l < 65536"
  proof (rule ccontr)
    assume "\<not> t + 2 + l < 65536"
    then have big: "65536 \<le> t + 2 + l"
      by linarith
    have "t + 2 + l - 65536 < 65536"
      using len_in short l255 by linarith
    then have "(t + 2 + l - 65536) mod 65536 = t + 2 + l - 65536"
      by (rule mod_less)
    with le_mod_geq [OF big] have "(t + 2 + l) mod 65536 = t + 2 + l - 65536"
      by (rule trans)
    then have "unat ?e = t + 2 + l - 65536"
      using e by (rule trans [rotated])
    then have "unat ?e < t + 2"
      using l255 big by linarith
    then show False
      using order un by linarith
  qed
  then have "(t + 2 + l) mod 65536 = t + 2 + l"
    by (rule mod_less)
  with e un have e': "nat (uint ?e) = t + 2 + l"
    by linarith
  have fits: "t + 2 + l < length b"
    using inside e' by linarith
  have "slice b (t + 2) (t + 2 + l) = Ok (take l (drop (t + 2) b))"
    using fits by (simp add: slice_def)
  with cut have "Ok (NewPmtDescriptor (b ! t) (take l (drop (t + 2) b)),
      k + 1 + 1 + ucast (b ! (t + 1))) = Ok (d, k')"
    by (simp only: e' bindR_def res.case)
  then have d: "d = NewPmtDescriptor (b ! t) (take l (drop (t + 2) b))"
    by (simp only: res.inject prod.inject)
  have "length (descData d) = l"
    using fits by (simp add: d)
  then show ?thesis
    unfolding descFits_def using tag_in len_in fits d l_def
    by (intro exI [of _ t]) simp
qed


lemma descLoop_fits:
  assumes "descLoop b off il k acc = Some r"
  shows "length b < 65536 \<longrightarrow> list_all (descFits b) acc \<longrightarrow>
    (case r of Ok ds \<Rightarrow> list_all (descFits b) ds | Fail e \<Rightarrow> True | Panic \<Rightarrow> True)"
proof (rule descLoop.raw_induct [where P = "\<lambda>b off il k acc r.
        length b < 65536 \<longrightarrow> list_all (descFits b) acc \<longrightarrow>
        (case r of Ok ds \<Rightarrow> list_all (descFits b) ds | Fail e \<Rightarrow> True | Panic \<Rightarrow> True)",
        OF _ assms], intro impI, goal_cases)
  case (1 f b off il k acc r)
  show ?case
  proof (cases "k < il")
    case False
    with 1(2) have "r = Ok acc"
      by simp
    with 1(4) show ?thesis
      by (simp only: res.case)
  next
    case True
    with 1(2) have body: "(case descStep b off k of
        Ok (d, k') \<Rightarrow> f b off il k' (acc @ [d]) | Fail e \<Rightarrow> Some (Fail e)
        | Panic \<Rightarrow> Some Panic) = Some r"
      by (simp only: if_True)
    show ?thesis
    proof (cases "descStep b off k")
      case (Ok x)
      obtain d k' where x: "x = (d, k')"
        by (cases x) auto
      from body have continue: "f b off il k' (acc @ [d]) = Some r"
        unfolding Ok x by (simp only: res.case prod.case)
      have "descFits b d"
        using 1(3) Ok unfolding x by (rule descStep_fits)
      with 1(4) have "list_all (descFits b) (acc @ [d])"
        by simp
      with 1(1) [OF continue] 1(3) show ?thesis
        by blast
    next
      case (Fail e)
      from body have "r = Fail e"
        unfolding Fail by (simp only: res.case option.inject)
      then show ?thesis
        by (simp only: res.case)
    next
      case Panic
      from body have "r = Panic"
        unfolding Panic by (simp only: res.case option.inject)
      then show ?thesis
        by (simp only: res.case)
    qed
  qed
qed

text \<open>A stream fits the buffer when each of its descriptors does.\<close>

definition streamFits :: "byte list \<Rightarrow> PmtElementaryStream \<Rightarrow> bool" where
  "streamFits b es = list_all (descFits b) (Descriptors es)"

lemma streamFits_New:
  "streamFits b (NewPmtElementaryStream st pid ds) = list_all (descFits b) ds"
  by (simp add: streamFits_def NewPmtElementaryStream_def)

lemma esLoop_fits:
  assumes "esLoop b bound off pacc sacc = Some r"
  shows "length b < 65536 \<longrightarrow> list_all (streamFits b) sacc \<longrightarrow>
    (case r of Ok x \<Rightarrow> list_all (streamFits b) (snd x) | Fail e \<Rightarrow> True | Panic \<Rightarrow> True)"
proof (rule esLoop.raw_induct [where P = "\<lambda>b bound off pacc sacc r.
        length b < 65536 \<longrightarrow> list_all (streamFits b) sacc \<longrightarrow>
        (case r of Ok x \<Rightarrow> list_all (streamFits b) (snd x) | Fail e \<Rightarrow> True | Panic \<Rightarrow> True)",
        OF _ assms], intro impI, goal_cases)
  case (1 f b bound off pacc sacc r)
  show ?case
  proof (cases "off < bound")
    case False
    with 1(2) have "r = Ok (pacc, sacc)"
      by simp
    with 1(4) show ?thesis
      by (simp only: res.case snd_conv)
  next
    case True
    show ?thesis
    proof (cases "esHead b off")
      case (Ok h)
      obtain st pid il where h: "h = (st, pid, il)"
        by (cases h) auto
      show ?thesis
      proof (cases "il \<noteq> 0 \<and> uint (il + (off + pmtEsDescriptorStaticLen)) < int (length b)")
        case guard: True
        show ?thesis
        proof (cases "descLoop b (off + pmtEsDescriptorStaticLen) il 0 []")
          case None
          with 1(2) True Ok h guard show ?thesis by simp
        next
          case (Some d)
          show ?thesis
          proof (cases d)
            case inner: (Ok ds)
            from 1(2) True Ok h guard Some inner
            have continue: "f b bound (off + pmtEsDescriptorStaticLen + il) (pacc @ [pid])
                (sacc @ [NewPmtElementaryStream st pid ds]) = Some r"
              by simp
            from descLoop_fits [OF Some] 1(3) have "list_all (descFits b) ds"
              unfolding inner by simp
            with 1(4) have "list_all (streamFits b) (sacc @ [NewPmtElementaryStream st pid ds])"
              by (simp add: streamFits_New)
            with 1(1) [OF continue] 1(3) show ?thesis
              by blast
          next
            case (Fail e)
            with 1(2) True Ok h guard Some have "r = Fail e" by simp
            then show ?thesis by (simp only: res.case)
          next
            case Panic
            with 1(2) True Ok h guard Some have "r = Panic" by simp
            then show ?thesis by (simp only: res.case)
          qed
        qed
      next
        case noguard: False
        with 1(2) True Ok h
        have continue: "f b bound (off + pmtEsDescriptorStaticLen) (pacc @ [pid])
            (sacc @ [NewPmtElementaryStream st pid []]) = Some r"
          by simp
        from 1(4) have "list_all (streamFits b) (sacc @ [NewPmtElementaryStream st pid []])"
          by (simp add: streamFits_New)
        with 1(1) [OF continue] 1(3) show ?thesis
          by blast
      qed
    next
      case (Fail e)
      with 1(2) True have "r = Fail e" by simp
      then show ?thesis by (simp only: res.case)
    next
      case Panic
      with 1(2) True have "r = Panic" by simp
      then show ?thesis by (simp only: res.case)
    qed
  qed
qed

lemma parsePMTSection_fits:
  assumes "parsePMTSection p b = Some (Ok p')" and "length b < 65536"
  shows "list_all (streamFits b) (elementaryStreams p')"
proof -
  from parsePMTSection_Ok [OF assms(1)] obtain bound start ps ss v c
    where loop: "esLoop b bound start [] [] = Some (Ok (ps, ss))"
      and p': "p' = p\<lparr>pids := ps, elementaryStreams := ss, versionNumber := v,
        currentNextIndicator := c\<rparr>"
    by blast
  from esLoop_fits [OF loop] assms(2) have "list_all (streamFits b) ss"
    by simp
  with p' show ?thesis by simp
qed

text \<open>Outside the claim as amended: an entry whose ES_info_length reaches the end of the
  section buffer. \<open>skipSection\<close> is \<open>boundarySection\<close> with ES_info_length 7 and a
  descriptor that declares 5 bytes of which the section holds 2. The guard
  \<open>int(infoLength+offset) < len(pmtBytes)\<close> has no else branch: the descriptor loop is
  not entered, the entry is kept without descriptors, and the parse succeeds.\<close>

definition skipSection :: "byte list" where
  "skipSection =
     [0x02, 0xB0, 0x12, 0x00, 0x01, 0xC1, 0x00, 0x00, 0xE1, 0x00, 0xF0, 0x00,
      0x1B, 0xE1, 0x01, 0xF0, 0x07, 0x0A, 0x05, 0xAA, 0xBB]"

lemma parsePMTSection_skips_descriptor_loop:
  "length skipSection = 21 \<and>
   parsePMTSection emptyPmt skipSection =
     Some (Ok \<lparr>pids = [257], elementaryStreams =
       [\<lparr>StreamType = 0x1B, ElementaryPid = 257, Descriptors = []\<rparr>],
       versionNumber = 0, currentNextIndicator = True\<rparr>)"
  by (simp add: skipSection_def parsePMTSection_def bindO_def sectionLength_def
      index_def bindR_def field12_def programInfoLengthOffset_def tableVersionAndCNI_def
      PSIHeaderLen_def pmtEsDescriptorStaticLen_def CrcLen_def esLoop.simps esHead_def pid13_def
      NewPmtElementaryStream_def emptyPmt_def)

text \<open>An entry with one descriptor of two bytes; in a section with a one-byte tail the
  descriptor ends one byte before the end of the section buffer.\<close>

definition nearEndStream :: PmtElementaryStream where
  "nearEndStream =
     \<lparr>StreamType = 0x1B, ElementaryPid = 257, Descriptors = [NewPmtDescriptor 0x0A [0xAA, 0xBB]]\<rparr>"

text \<open>Claim C7, amended. In the descriptor loop that \<open>parsePMTSection\<close> runs for an
  entry that its loop over the entries visits and whose ES_info_length is not zero and
  ends before the end of the section buffer: a descriptor that the loop reaches and whose
  declared length makes its payload reach or extend past the end of the section buffer
  (the buffer holds at most as many bytes after the length byte as the length declares)
  makes \<open>parsePMTSection\<close> fail with the descriptor-parse error, wherever it stands
  among the entries and descriptors of the section; when every descriptor of the visited
  entries ends before the end of the buffer, be it by one byte, each is sliced and passed
  over, and the parsed streams are the encoded ones with their descriptors in order; and
  no descriptor is accepted that does not fit: on every buffer, each descriptor of a PMT
  that \<open>parsePMTSection\<close> returns has its payload, of the declared length, end before
  the end of the buffer. The descriptors of an entry whose ES_info_length is zero or
  reaches the end of the buffer are left out of the amended claim.\<close>

theorem parsePMTSection_descriptor_bounds:
  "(overrunLayout fixed progInfo good st ph pl il gds tag l rest \<and> length rest \<le> unat l \<longrightarrow>
      parsePMTSection p (overrunSection fixed progInfo good st ph pl il gds tag l rest) =
        Some (Fail ErrParsePMTDescriptor)) \<and>
   (tailLayout fixed' progInfo' ss tail \<longrightarrow>
      (\<exists>p'. parsePMTSection p (tailSection fixed' progInfo' ss tail) = Some (Ok p') \<and>
         elementaryStreams p' = ss)) \<and>
   (parsePMTSection p b = Some (Ok q) \<and> length b < 65536 \<longrightarrow>
      list_all (streamFits b) (elementaryStreams q))"
proof (intro conjI impI)
  assume "overrunLayout fixed progInfo good st ph pl il gds tag l rest \<and> length rest \<le> unat l"
  then show "parsePMTSection p (overrunSection fixed progInfo good st ph pl il gds tag l rest) =
      Some (Fail ErrParsePMTDescriptor)"
    by (intro parsePMTSection_overrun) (simp_all add: overrunLayout_def)
next
  assume "tailLayout fixed' progInfo' ss tail"
  then have "parsePMTSection p (tailSection fixed' progInfo' ss tail) =
      Some (Ok (p\<lparr>pids := map ElementaryPid ss, elementaryStreams := ss,
        versionNumber := drop_bit 1 (fixed' ! 2) AND 0x1f,
        currentNextIndicator := (fixed' ! 2 AND 0x01 \<noteq> 0)\<rparr>))"
    by (rule parsePMTSection_tail)
  then show "\<exists>p'. parsePMTSection p (tailSection fixed' progInfo' ss tail) = Some (Ok p') \<and>
      elementaryStreams p' = ss"
    by simp
next
  assume "parsePMTSection p b = Some (Ok q) \<and> length b < 65536"
  then show "list_all (streamFits b) (elementaryStreams q)"
    by (intro parsePMTSection_fits [of p]) simp_all
qed

theorem parsePMTSection_descriptor_bounds_witness:
  "overrunLayout [0x00, 0x01, 0xC1, 0x00, 0x00, 0xE1, 0x00] [] [] 0x1B 0xE1 0x01 4 [] 0x0A 0x05
     [0x01, 0x02, 0x03] \<and>
   length [0x01, 0x02, 0x03 :: byte] \<le> unat (0x05 :: byte) \<and>
   parsePMTSection emptyPmt
     (overrunSection [0x00, 0x01, 0xC1, 0x00, 0x00, 0xE1, 0x00] [] [] 0x1B 0xE1 0x01 4 [] 0x0A 0x05
        [0x01, 0x02, 0x03]) = Some (Fail ErrParsePMTDescriptor) \<and>
   tailLayout [0x00, 0x01, 0xC1, 0x00, 0x00, 0xE1, 0x00] [] [nearEndStream] [0x00] \<and>
   length (tailSection [0x00, 0x01, 0xC1, 0x00, 0x00, 0xE1, 0x00] [] [nearEndStream] [0x00]) = 22 \<and>
   (\<exists>p'. parsePMTSection emptyPmt
       (tailSection [0x00, 0x01, 0xC1, 0x00, 0x00, 0xE1, 0x00] [] [nearEndStream] [0x00]) =
       Some (Ok p') \<and>
      elementaryStreams p' = [nearEndStream] \<and>
      list_all (streamFits (tailSection [0x00, 0x01, 0xC1, 0x00, 0x00, 0xE1, 0x00] []
        [nearEndStream] [0x00])) (elementaryStreams p'))"
proof -
  let ?fixed = "[0x00, 0x01, 0xC1, 0x00, 0x00, 0xE1, 0x00] :: byte list"
  let ?b = "tailSection ?fixed [] [nearEndStream] [0x00]"
  have a: "overrunLayout ?fixed [] [] 0x1B 0xE1 0x01 4 [] 0x0A
      0x05 [0x01, 0x02, 0x03] \<and> length [0x01, 0x02, 0x03 :: byte] \<le> unat (0x05 :: byte)"
    by (simp add: overrunLayout_def overrunSection_def encStreams_def encDescriptors_def
        enc12_def Let_def)
  have len: "length ?b = 22"
    by (simp add: tailSection_def nearEndStream_def encStreams_def encStream_def
        encDescriptors_def encDescriptor_def enc12_def)
  have t: "tailLayout ?fixed [] [nearEndStream] [0x00]"
    unfolding tailLayout_def len
    by (simp add: nearEndStream_def wfStream_def wfDescriptor_def encStream_def
        encDescriptors_def encDescriptor_def enc12_def)
  obtain q where q: "parsePMTSection emptyPmt ?b = Some (Ok q)" and qs: "elementaryStreams q = [nearEndStream]"
    using parsePMTSection_tail [OF t, of emptyPmt] by simp
  have short: "length ?b < 65536"
    unfolding len by simp
  from parsePMTSection_descriptor_bounds [where fixed = ?fixed
      and progInfo = "[]" and good = "[]" and st = "0x1B" and ph = "0xE1" and pl = "0x01"
      and il = 4 and gds = "[]" and tag = "0x0A" and l = "0x05" and rest = "[0x01, 0x02, 0x03]"
      and p = emptyPmt and fixed' = ?fixed and progInfo' = "[]" and ss = "[nearEndStream]"
      and tail = "[0x00]" and b = ?b and q = q] a t q short
  have "parsePMTSection emptyPmt
     (overrunSection ?fixed [] [] 0x1B 0xE1 0x01 4 [] 0x0A 0x05 [0x01, 0x02, 0x03]) =
       Some (Fail ErrParsePMTDescriptor)"
    and "list_all (streamFits ?b) (elementaryStreams q)"
    by (simp_all only: simp_thms)
  with a t len q qs show ?thesis
    by blast
qed


section \<open>The stream reader\<close>

text \<open>The packet accessors (\<open>packet.Pid\<close> and \<open>pkt.PID()\<close>, \<open>packet.Payload\<close>,
  \<open>packet.Header\<close>), \<open>gots.ComputeCRC\<close> and the constant \<open>PatPid\<close> are not under
  src/, and the spec leaves them to external collaborators: they are parameters of the
  model. A packet is its 188 bytes.\<close>

record packetOps =
  pktPid :: "byte list \<Rightarrow> int"
  pktPayload :: "byte list \<Rightarrow> error + byte list"
  pktHeader :: "byte list \<Rightarrow> byte list"
  computeCRC :: "byte list \<Rightarrow> byte list"
  patPid :: int

text \<open>Modelled from the spec: the Accumulator (\<open>packet.NewAccumulator\<close>,
  \<open>WritePacket\<close>, \<open>Bytes\<close>) is not under src/. A write appends the packet's payload
  to the buffer and asks the completion predicate about the buffer as it stands after the
  append; an error of the predicate is surfaced, and \<open>done\<close> is signalled by the
  distinguished \<open>ErrAccumulatorDone\<close>. A packet without payload is reported at once, with
  the accessor's error. The model returns the new buffer (\<open>Bytes()\<close>) with the error; a
  fresh accumulator is the empty buffer.\<close>

definition WritePacket ::
  "packetOps \<Rightarrow> (byte list \<Rightarrow> (bool \<times> error option) res) \<Rightarrow> byte list \<Rightarrow> byte list \<Rightarrow>
     (byte list \<times> error option) res" where
  "WritePacket ops doneFunc buf pkt =
     (case pktPayload ops pkt of
        Inl e \<Rightarrow> Ok (buf, Some e)
      | Inr payload \<Rightarrow>
          bindR (doneFunc (buf @ payload)) (\<lambda>(finished, err).
            case err of
              Some e \<Rightarrow> Ok (buf @ payload, Some e)
            | None \<Rightarrow> if finished then Ok (buf @ payload, Some ErrAccumulatorDone)
                      else Ok (buf @ payload, None)))"

text \<open>The reader, as \<open>io.ReadFull\<close> on 188 bytes sees it: a list of packets read in
  full, or of errors other than end-of-file; at the end of the list the reader is at
  end-of-file (\<open>io.EOF\<close>, or \<open>io.ErrUnexpectedEOF\<close> inside a last, partial packet).
  \<open>buf\<close> is the buffer of the current accumulator \<open>pmtAcc\<close>.\<close>

datatype readResult = Packet "byte list" | ReadError error

fun ReadPMT_loop :: "packetOps \<Rightarrow> int \<Rightarrow> byte list \<Rightarrow> readResult list \<Rightarrow> pmt res option" where
  "ReadPMT_loop ops pid buf [] = Some (Fail ErrPMTNotFound)"
| "ReadPMT_loop ops pid buf (ReadError e # r) = Some (Fail e)"
| "ReadPMT_loop ops pid buf (Packet pkt # r) =
     (if pktPid ops pkt \<noteq> pid then ReadPMT_loop ops pid buf r
      else case WritePacket ops PmtAccumulatorDoneFunc buf pkt of
        Panic \<Rightarrow> Some Panic
      | Fail e \<Rightarrow> Some (Fail e)
      | Ok (buf', err) \<Rightarrow>
          if err = Some ErrAccumulatorDone then
            (case NewPMT buf' of
               None \<Rightarrow> None
             | Some Panic \<Rightarrow> Some Panic
             | Some (Fail e) \<Rightarrow> Some (Fail e)
             | Some (Ok p) \<Rightarrow>
                 if length (Pids p) = 0 then ReadPMT_loop ops pid [] r else Some (Ok p))
          else (case err of Some e \<Rightarrow> Some (Fail e) | None \<Rightarrow> ReadPMT_loop ops pid buf' r))"

definition ReadPMT :: "packetOps \<Rightarrow> readResult list \<Rightarrow> int \<Rightarrow> pmt res option" where
  "ReadPMT ops r pid = ReadPMT_loop ops pid [] r"

lemma ReadPMT_loop_nonempty:
  "ReadPMT_loop ops pid buf r = Some (Ok p) \<Longrightarrow> Pids p \<noteq> [] \<and> ElementaryStreams p \<noteq> []"
proof (induction ops pid buf r rule: ReadPMT_loop.induct)
  case (1 ops pid buf)
  then show ?case by simp
next
  case (2 ops pid buf e r)
  then show ?case by simp
next
  case (3 ops pid buf pkt r)
  show ?case
  proof (cases "pktPid ops pkt \<noteq> pid")
    case True
    with 3 show ?thesis by simp
  next
    case same: False
    show ?thesis
    proof (cases "WritePacket ops PmtAccumulatorDoneFunc buf pkt")
      case (Ok w)
      obtain buf' err where w: "w = (buf', err)"
        by (cases w) auto
      show ?thesis
      proof (cases "err = Some ErrAccumulatorDone")
        case complete: True
        show ?thesis
        proof (cases "NewPMT buf'")
          case None
          with 3(4) same Ok w complete show ?thesis by simp
        next
          case (Some x)
          show ?thesis
          proof (cases x)
            case parsed: (Ok q)
            have par: "pids q = map ElementaryPid (elementaryStreams q)"
              using Some parsed by (intro NewPMT_parallel) simp
            show ?thesis
            proof (cases "length (Pids q) = 0")
              case True
              from 3(4) have "ReadPMT_loop ops pid [] r = Some (Ok p)"
                using same Ok w complete Some parsed True by simp
              with 3(2) [OF _ Ok w [symmetric] complete Some parsed True] same show ?thesis
                by simp
            next
              case False
              from 3(4) have "p = q"
                using same Ok w complete Some parsed False by simp
              with False par show ?thesis
                by (auto simp: Pids_def ElementaryStreams_def)
            qed
          next
            case (Fail e)
            with 3(4) same Ok w complete Some show ?thesis by simp
          next
            case Panic
            with 3(4) same Ok w complete Some show ?thesis by simp
          qed
        qed
      next
        case notdone: False
        show ?thesis
        proof (cases err)
          case None
          from 3(4) have "ReadPMT_loop ops pid buf' r = Some (Ok p)"
            using same Ok w notdone None by simp
          with 3(3) [OF _ Ok w [symmetric] notdone None] same show ?thesis
            by simp
        next
          case (Some e)
          with 3(4) same Ok w notdone show ?thesis by simp
        qed
      qed
    next
      case (Fail e)
      with 3(4) same show ?thesis by simp
    next
      case Panic
      with 3(4) same show ?thesis by simp
    qed
  qed
qed

text \<open>The claim's words, as a relation on what has been read: after the reads \<open>r\<close>,
  begun with accumulator buffer \<open>buf\<close>, the reader is still searching, with accumulator
  buffer \<open>buf'\<close>. Nothing read leaves the accumulator as it was; a packet of another PID
  is passed over; a packet of the target PID that leaves the accumulation incomplete grows
  the buffer; one that completes an accumulation parsing to a PMT without PIDs is
  discarded with the accumulation, and the search goes on from a fresh, empty
  accumulator.\<close>

inductive searching :: "packetOps \<Rightarrow> int \<Rightarrow> byte list \<Rightarrow> readResult list \<Rightarrow> byte list \<Rightarrow> bool"
  for ops :: packetOps and pid :: int where
  nothing_read: "searching ops pid buf [] buf"
| other_pid: "pktPid ops pkt \<noteq> pid \<Longrightarrow> searching ops pid buf r buf' \<Longrightarrow>
    searching ops pid buf (Packet pkt # r) buf'"
| incomplete: "pktPid ops pkt = pid \<Longrightarrow>
    WritePacket ops PmtAccumulatorDoneFunc buf pkt = Ok (grown, None) \<Longrightarrow>
    searching ops pid grown r buf' \<Longrightarrow> searching ops pid buf (Packet pkt # r) buf'"
| discarded: "pktPid ops pkt = pid \<Longrightarrow>
    WritePacket ops PmtAccumulatorDoneFunc buf pkt = Ok (grown, Some ErrAccumulatorDone) \<Longrightarrow>
    NewPMT grown = Some (Ok q) \<Longrightarrow> Pids q = [] \<Longrightarrow>
    searching ops pid [] r buf' \<Longrightarrow> searching ops pid buf (Packet pkt # r) buf'"

text \<open>A packet of the target PID completes the accumulation \<open>buf\<close>, and the completed
  buffer parses to the PMT \<open>p\<close>, which has PIDs.\<close>

definition completes :: "packetOps \<Rightarrow> int \<Rightarrow> byte list \<Rightarrow> byte list \<Rightarrow> pmt \<Rightarrow> bool" where
  "completes ops pid buf pkt p \<longleftrightarrow>
     pktPid ops pkt = pid \<and>
     (case WritePacket ops PmtAccumulatorDoneFunc buf pkt of
        Ok (grown, err) \<Rightarrow> err = Some ErrAccumulatorDone \<and> NewPMT grown = Some (Ok p)
      | Fail e \<Rightarrow> False | Panic \<Rightarrow> False) \<and>
     Pids p \<noteq> []"

lemma ReadPMT_loop_searching:
  "searching ops pid buf r buf' \<Longrightarrow> ReadPMT_loop ops pid buf (r @ r') = ReadPMT_loop ops pid buf' r'"
  by (induction rule: searching.induct) simp_all

lemma ReadPMT_loop_completes:
  "completes ops pid buf pkt p \<Longrightarrow> ReadPMT_loop ops pid buf (Packet pkt # r) = Some (Ok p)"
  by (auto simp: completes_def split: res.splits)

lemma ReadPMT_loop_found:
  assumes "ReadPMT_loop ops pid buf r = Some (Ok p)"
  shows "\<exists>pre pkt post buf'. r = pre @ Packet pkt # post \<and> searching ops pid buf pre buf' \<and>
           completes ops pid buf' pkt p"
  using assms
proof (induction ops pid buf r rule: ReadPMT_loop.induct)
  case (1 ops pid buf)
  then show ?case by simp
next
  case (2 ops pid buf e r)
  then show ?case by simp
next
  case (3 ops pid buf pkt r)
  show ?case
  proof (cases "pktPid ops pkt \<noteq> pid")
    case True
    with 3(1,4) obtain pre pkt' post buf' where "r = pre @ Packet pkt' # post"
      and "searching ops pid buf pre buf'" and "completes ops pid buf' pkt' p"
      by auto
    then have "Packet pkt # r = (Packet pkt # pre) @ Packet pkt' # post \<and>
        searching ops pid buf (Packet pkt # pre) buf' \<and> completes ops pid buf' pkt' p"
      using True by (simp add: other_pid)
    then show ?thesis
      by blast
  next
    case same: False
    show ?thesis
    proof (cases "WritePacket ops PmtAccumulatorDoneFunc buf pkt")
      case (Ok w)
      obtain grown err where w: "w = (grown, err)"
        by (cases w) auto
      show ?thesis
      proof (cases "err = Some ErrAccumulatorDone")
        case complete: True
        show ?thesis
        proof (cases "NewPMT grown")
          case None
          with 3(4) same Ok w complete show ?thesis by simp
        next
          case (Some x)
          show ?thesis
          proof (cases x)
            case parsed: (Ok q)
            show ?thesis
            proof (cases "length (Pids q) = 0")
              case True
              from 3(4) have "ReadPMT_loop ops pid [] r = Some (Ok p)"
                using same Ok w complete Some parsed True by simp
              with 3(2) [OF _ Ok w [symmetric] complete Some parsed True] same
              obtain pre pkt' post buf' where "r = pre @ Packet pkt' # post"
                and "searching ops pid [] pre buf'" and "completes ops pid buf' pkt' p"
                by auto
              moreover have "WritePacket ops PmtAccumulatorDoneFunc buf pkt =
                  Ok (grown, Some ErrAccumulatorDone)"
                using Ok w complete by simp
              ultimately have "Packet pkt # r = (Packet pkt # pre) @ Packet pkt' # post \<and>
                  searching ops pid buf (Packet pkt # pre) buf' \<and> completes ops pid buf' pkt' p"
                using same Some parsed True by (simp add: discarded)
              then show ?thesis
                by blast
            next
              case False
              from 3(4) have "p = q"
                using same Ok w complete Some parsed False by simp
              then have "Packet pkt # r = [] @ Packet pkt # r \<and> searching ops pid buf [] buf \<and>
                  completes ops pid buf pkt p"
                using same Ok w complete Some parsed False
                by (simp add: completes_def nothing_read)
              then show ?thesis
                by blast
            qed
          next
            case (Fail e)
            with 3(4) same Ok w complete Some show ?thesis by simp
          next
            case Panic
            with 3(4) same Ok w complete Some show ?thesis by simp
          qed
        qed
      next
        case notdone: False
        show ?thesis
        proof (cases err)
          case None
          from 3(4) have "ReadPMT_loop ops pid grown r = Some (Ok p)"
            using same Ok w notdone None by simp
          with 3(3) [OF _ Ok w [symmetric] notdone None] same
          obtain pre pkt' post buf' where "r = pre @ Packet pkt' # post"
            and "searching ops pid grown pre buf'" and "completes ops pid buf' pkt' p"
            by auto
          moreover have "WritePacket ops PmtAccumulatorDoneFunc buf pkt = Ok (grown, None)"
            using Ok w None by simp
          ultimately have "Packet pkt # r = (Packet pkt # pre) @ Packet pkt' # post \<and>
              searching ops pid buf (Packet pkt # pre) buf' \<and> completes ops pid buf' pkt' p"
            using same by (simp add: incomplete)
          then show ?thesis
            by blast
        next
          case (Some e)
          with 3(4) same Ok w notdone show ?thesis by simp
        qed
      qed
    next
      case (Fail e)
      with 3(4) same show ?thesis by simp
    next
      case Panic
      with 3(4) same show ?thesis by simp
    qed
  qed
qed

text \<open>An instance of the accessors on which the model can be run: a 4-byte header with
  the PID in the low 13 bits of bytes 1 and 2, the payload everything after the header, PAT
  PID 0. Its checksum function returns the four CRC bytes of \<open>exampleImage\<close>.\<close>

definition exampleOps :: packetOps where
  "exampleOps =
     \<lparr>pktPid = (\<lambda>pkt. pid13 (pkt ! 1) (pkt ! 2)),
      pktPayload = (\<lambda>pkt. Inr (drop 4 pkt)),
      pktHeader = take 4,
      computeCRC = (\<lambda>bs. [0x2B, 0x59, 0xBC, 0x22]),
      patPid = 0\<rparr>"

definition stuffingPacket :: "byte list" where
  "stuffingPacket = [0x47, 0x41, 0x00, 0x10, 0x00] @ replicate 183 0xFF"

definition examplePacket :: "byte list" where
  "examplePacket = [0x47, 0x41, 0x00, 0x10] @ encPMT exampleImage"

definition otherPacket :: "byte list" where
  "otherPacket = [0x47, 0x00, 0x11, 0x10] @ replicate 184 0xFF"

definition partialPacket :: "byte list" where
  "partialPacket = [0x47, 0x41, 0x00, 0x10, 0x00, 0x02, 0xB0, 0xFF] @ replicate 180 0x00"

lemma pktPid_stuffingPacket: "pktPid exampleOps stuffingPacket = 256"
  by (simp add: exampleOps_def stuffingPacket_def pid13_def)

lemma WritePacket_stuffingPacket:
  "WritePacket exampleOps PmtAccumulatorDoneFunc [] stuffingPacket =
     Ok (0x00 # replicate 183 0xFF, Some ErrAccumulatorDone)"
  by (simp add: WritePacket_def exampleOps_def stuffingPacket_def PmtAccumulatorDoneFunc_def
      PointerField_def index_def bindR_def slice_from_def doneLoop.simps)

lemma NewPMT_stuffing: "NewPMT (0x00 # replicate 183 0xFF) = Some (Ok emptyPmt)"
  by (simp add: NewPMT_def parseTables_def PointerField_def index_def bindO_def slice_from_def
      parseTablesLoop.simps)

lemma PmtAccumulatorDoneFunc_exampleImage:
  "PmtAccumulatorDoneFunc (encPMT exampleImage) = Ok (True, None)"
  by (simp add: exampleImage_def encPMT_def imgSection_def encSection_def encStreams_def
      encStream_def encDescriptors_def encDescriptor_def enc12_def PmtAccumulatorDoneFunc_def
      PointerField_def index_def bindR_def slice_from_def doneLoop.simps sectionLength_def
      field12_def)

lemma WritePacket_partialPacket:
  "pktPid exampleOps partialPacket = 256 \<and>
   WritePacket exampleOps PmtAccumulatorDoneFunc [] partialPacket = Ok (drop 4 partialPacket, None)"
  by (simp add: WritePacket_def exampleOps_def partialPacket_def PmtAccumulatorDoneFunc_def
      PointerField_def index_def bindR_def slice_from_def doneLoop.simps sectionLength_def
      field12_def pid13_def)

lemma pktPid_otherPacket: "pktPid exampleOps otherPacket \<noteq> 256"
  by (simp add: exampleOps_def otherPacket_def pid13_def)

lemma completes_examplePacket:
  "completes exampleOps 256 [] examplePacket (parsedPmt (imgFixed exampleImage) (imgStreams exampleImage))"
proof -
  have b: "pktPid exampleOps examplePacket = 256"
    by (simp add: exampleOps_def examplePacket_def pid13_def)
  have c: "WritePacket exampleOps PmtAccumulatorDoneFunc [] examplePacket =
    Ok (encPMT exampleImage, Some ErrAccumulatorDone)"
    by (simp add: WritePacket_def exampleOps_def examplePacket_def
        PmtAccumulatorDoneFunc_exampleImage bindR_def)
  have d: "Pids (parsedPmt (imgFixed exampleImage) (imgStreams exampleImage)) \<noteq> []"
    by (simp add: Pids_def parsedPmt_def exampleImage_def)
  show ?thesis
    unfolding completes_def
    by (simp only: b c d res.case prod.case NewPMT_encPMT [OF wfPMT_exampleImage] simp_thms)
qed

text \<open>Claim C8. While the reader is still searching when the source ends, \<open>ReadPMT\<close>
  fails with \<open>ErrPMTNotFound\<close>: no PMT was assembled, or every assembled one was empty
  and discarded. As soon as a packet completes an accumulation that parses to a PMT with
  PIDs, after reads that left the reader searching (packets of other PIDs, incomplete
  accumulations, discarded empty PMTs each followed by a fresh accumulator), \<open>ReadPMT\<close>
  returns that PMT, whatever the source holds after the packet. Every PMT that \<open>ReadPMT\<close>
  returns has PIDs and elementary streams, and is returned in that way.\<close>

theorem ReadPMT_contract:
  "(searching ops pid [] src buf \<longrightarrow> ReadPMT ops src pid = Some (Fail ErrPMTNotFound)) \<and>
   (searching ops pid [] pre buf' \<and> completes ops pid buf' pkt p \<longrightarrow>
      ReadPMT ops (pre @ Packet pkt # post) pid = Some (Ok p)) \<and>
   (ReadPMT ops src' pid = Some (Ok p') \<longrightarrow>
      Pids p' \<noteq> [] \<and> ElementaryStreams p' \<noteq> [] \<and>
      (\<exists>pre' pkt' post' b. src' = pre' @ Packet pkt' # post' \<and> searching ops pid [] pre' b \<and>
         completes ops pid b pkt' p'))"
proof (intro conjI impI)
  assume "searching ops pid [] src buf"
  from ReadPMT_loop_searching [OF this, of "[]"]
  show "ReadPMT ops src pid = Some (Fail ErrPMTNotFound)"
    by (simp add: ReadPMT_def)
next
  assume a: "searching ops pid [] pre buf' \<and> completes ops pid buf' pkt p"
  then have "ReadPMT_loop ops pid [] (pre @ Packet pkt # post) =
      ReadPMT_loop ops pid buf' (Packet pkt # post)"
    by (intro ReadPMT_loop_searching) simp
  also have "\<dots> = Some (Ok p)"
    using a by (intro ReadPMT_loop_completes) simp
  finally show "ReadPMT ops (pre @ Packet pkt # post) pid = Some (Ok p)"
    by (simp add: ReadPMT_def)
next
  assume a: "ReadPMT ops src' pid = Some (Ok p')"
  then have "Pids p' \<noteq> [] \<and> ElementaryStreams p' \<noteq> []"
    unfolding ReadPMT_def by (rule ReadPMT_loop_nonempty)
  then show "Pids p' \<noteq> []" and "ElementaryStreams p' \<noteq> []"
    by simp_all
  show "\<exists>pre' pkt' post' b. src' = pre' @ Packet pkt' # post' \<and> searching ops pid [] pre' b \<and>
         completes ops pid b pkt' p'"
    using a unfolding ReadPMT_def by (rule ReadPMT_loop_found)
qed

theorem ReadPMT_contract_witness:
  "searching exampleOps 256 [] [Packet otherPacket, Packet partialPacket] (drop 4 partialPacket) \<and>
   ReadPMT exampleOps [Packet otherPacket, Packet partialPacket] 256 = Some (Fail ErrPMTNotFound) \<and>
   searching exampleOps 256 [] [Packet otherPacket, Packet stuffingPacket] [] \<and>
   completes exampleOps 256 [] examplePacket
     (parsedPmt (imgFixed exampleImage) (imgStreams exampleImage)) \<and>
   ReadPMT exampleOps
     ([Packet otherPacket, Packet stuffingPacket] @ Packet examplePacket # [Packet stuffingPacket]) 256 =
     Some (Ok (parsedPmt (imgFixed exampleImage) (imgStreams exampleImage))) \<and>
   ElementaryStreams (parsedPmt (imgFixed exampleImage) (imgStreams exampleImage)) \<noteq> []"
proof -
  have empty: "Pids emptyPmt = []"
    by (simp add: Pids_def emptyPmt_def)
  have s1: "searching exampleOps 256 [] [Packet otherPacket, Packet partialPacket] (drop 4 partialPacket)"
    using WritePacket_partialPacket
    by (intro other_pid [OF pktPid_otherPacket] incomplete [where grown = "drop 4 partialPacket"])
      (simp_all add: nothing_read)
  have s2: "searching exampleOps 256 [] [Packet otherPacket, Packet stuffingPacket] []"
    by (intro other_pid [OF pktPid_otherPacket]
        discarded [OF pktPid_stuffingPacket WritePacket_stuffingPacket NewPMT_stuffing empty]
        nothing_read)
  from ReadPMT_contract [where ops = exampleOps and pid = 256
      and src = "[Packet otherPacket, Packet partialPacket]" and buf = "drop 4 partialPacket"
      and pre = "[Packet otherPacket, Packet stuffingPacket]" and buf' = "[]"
      and pkt = examplePacket and post = "[Packet stuffingPacket]"
      and p = "parsedPmt (imgFixed exampleImage) (imgStreams exampleImage)"
      and src' = "[Packet otherPacket, Packet stuffingPacket] @ Packet examplePacket #
        [Packet stuffingPacket]"
      and p' = "parsedPmt (imgFixed exampleImage) (imgStreams exampleImage)"]
    s1 s2 completes_examplePacket
  show ?thesis
    by (simp only: simp_thms)
qed


section \<open>The PID filter\<close>

text \<open>Modelled from the spec: \<open>packet.PacketSize\<close> is not under src/; the spec gives the
  fixed packet as a unit of 188 bytes.\<close>

definition PacketSize :: nat where
  "PacketSize = 188"

text \<open>The first loop of \<open>FilterPMTPacketsToPids\<close>: the payloads of the packets, written
  one after the other into \<open>pmtByteBuffer\<close>; a packet without payload ends the call with
  \<open>ErrNoPayload\<close>.\<close>

fun collectPayloads :: "packetOps \<Rightarrow> byte list list \<Rightarrow> byte list \<Rightarrow> error + byte list" where
  "collectPayloads ops [] pmtByteBuffer = Inr pmtByteBuffer"
| "collectPayloads ops (pkt # pkts) pmtByteBuffer =
     (case pktPayload ops pkt of
        Inl e \<Rightarrow> Inl ErrNoPayload
      | Inr pay \<Rightarrow> collectPayloads ops pkts (pmtByteBuffer @ pay))"

text \<open>The loop over the requested PIDs. \<open>unfilteredPMT\<close> is what \<open>NewPMT\<close> returned,
  its error dropped: \<open>None\<close> is the nil interface of a failed parse, on which the call of
  \<open>PIDExists\<close> panics. The PAT PID and the PID of the first packet are not counted as
  missing.\<close>

fun missingLoop :: "packetOps \<Rightarrow> pmt option \<Rightarrow> int \<Rightarrow> int list \<Rightarrow> int list \<Rightarrow> int list res" where
  "missingLoop ops unfilteredPMT pmtPid [] missingPids = Ok missingPids"
| "missingLoop ops unfilteredPMT pmtPid (pid # rest) missingPids =
     (case unfilteredPMT of
        None \<Rightarrow> Panic
      | Some p \<Rightarrow>
          missingLoop ops unfilteredPMT pmtPid rest
            (if \<not> PIDExists p pid \<and> pid \<noteq> patPid ops \<and> pid \<noteq> pmtPid
             then missingPids @ [pid] else missingPids))"

text \<open>PID and ES_info_length of the stream entry at \<open>offset\<close>, as the loop of the filter
  reads them.\<close>

definition filterHead :: "byte list \<Rightarrow> uint16 \<Rightarrow> (int \<times> uint16) res" where
  "filterHead pmtPayload offset =
     bindR (index pmtPayload (unat (offset + 1))) (\<lambda>b1.
     bindR (index pmtPayload (unat (offset + 2))) (\<lambda>b2.
     bindR (index pmtPayload (unat (offset + 3))) (\<lambda>b3.
     bindR (index pmtPayload (unat (offset + 4))) (\<lambda>b4.
       Ok (pid13 b1 b2, field12 b3 b4)))))"

text \<open>The loop of the filter over the stream entries: the entry of a requested PID is
  written whole to \<open>filteredPMT\<close>, the others are passed over. \<open>bound\<close> is
  \<open>PSIHeaderLen+sectionLength-pmtEsDescriptorStaticLen-CrcLen\<close>.\<close>

partial_function (option) filterLoop ::
  "byte list \<Rightarrow> int list \<Rightarrow> uint16 \<Rightarrow> uint16 \<Rightarrow> byte list \<Rightarrow> byte list res option"
where
  "filterLoop pmtPayload wanted bound offset filteredPMT =
     (if offset < bound then
        (case filterHead pmtPayload offset of
           Panic \<Rightarrow> Some Panic
         | Fail e \<Rightarrow> Some (Fail e)
         | Ok (elementaryPid, infoLength) \<Rightarrow>
             if pidIn wanted elementaryPid then
               (case slice pmtPayload (unat offset)
                       (unat (offset + pmtEsDescriptorStaticLen + infoLength)) of
                  Panic \<Rightarrow> Some Panic
                | Fail e \<Rightarrow> Some (Fail e)
                | Ok esInfo \<Rightarrow>
                    filterLoop pmtPayload wanted bound
                      (offset + (pmtEsDescriptorStaticLen + infoLength)) (filteredPMT @ esInfo))
             else
               filterLoop pmtPayload wanted bound
                 (offset + (pmtEsDescriptorStaticLen + infoLength)) filteredPMT)
      else Some (Ok filteredPMT))"

declare filterLoop.simps [code]

text \<open>The slice expression \<open>s[lo:hi]\<close> with \<open>int\<close> bounds.\<close>

definition sliceInt :: "byte list \<Rightarrow> int \<Rightarrow> int \<Rightarrow> byte list res" where
  "sliceInt s lo hi =
     (if 0 \<le> lo \<and> lo \<le> hi \<and> hi \<le> int (length s)
      then Ok (take (nat (hi - lo)) (drop (nat lo) s)) else Panic)"

text \<open>\<open>safeSlice\<close> bounds the end of the slice by the length, not its start.\<close>

definition safeSlice :: "byte list \<Rightarrow> int \<Rightarrow> int \<Rightarrow> byte list res" where
  "safeSlice byteArray start end' =
     (if end' < int (length byteArray) then sliceInt byteArray start end'
      else sliceInt byteArray start (int (length byteArray)))"

text \<open>\<open>padPacket\<close> copies the buffer into a new packet, as much of it as fits, and fills
  the rest of the packet with 0xFF.\<close>

definition padPacket :: "byte list \<Rightarrow> byte list" where
  "padPacket buf = take PacketSize buf @ replicate (PacketSize - length buf) 0xFF"

text \<open>The last loop: each packet of the input gives its header to a new packet that
  takes the next bytes of \<open>fPMT\<close>, until \<open>fPMT\<close> is used up.\<close>

fun repack :: "packetOps \<Rightarrow> byte list list \<Rightarrow> byte list \<Rightarrow> byte list list \<Rightarrow> byte list list res" where
  "repack ops [] fPMT filteredPMTPackets = Ok filteredPMTPackets"
| "repack ops (pkt # pkts) fPMT filteredPMTPackets =
     (if 0 < length fPMT then
        bindR (safeSlice fPMT 0 (int PacketSize - int (length (pktHeader ops pkt)))) (\<lambda>toWrite.
          repack ops pkts
            (if length toWrite < length fPMT then drop (length toWrite) fPMT else [])
            (filteredPMTPackets @ [padPacket (pktHeader ops pkt @ toWrite)]))
      else Ok filteredPMTPackets)"

text \<open>The assignment \<open>s[i] = v\<close>.\<close>

definition update :: "byte list \<Rightarrow> nat \<Rightarrow> byte \<Rightarrow> byte list res" where
  "update s i v = (if i < length s then Ok (s[i := v]) else Panic)"

text \<open>The middle of \<open>FilterPMTPacketsToPids\<close>, from \<open>pointerField\<close> to the appended
  CRC: the bytes up to the section, the first twelve bytes of the section, the program
  descriptors, the entries of the requested PIDs; then the new section_length is patched
  into the copy, and the checksum of the new section is appended. \<open>pointerField\<close> is a
  \<open>uint8\<close>, and so are \<open>pointerField+1\<close> and \<open>pointerField+2\<close>.\<close>

definition rewritePMT ::
  "packetOps \<Rightarrow> byte list list \<Rightarrow> int list \<Rightarrow> byte list \<Rightarrow> byte list res option" where
  "rewritePMT ops packets wanted pmtPayload =
     bindO (Some (PointerField pmtPayload)) (\<lambda>pf.
     let pointerField = pf + 1 in
     bindO (Some (slice_to pmtPayload (unat pointerField))) (\<lambda>skipped.
     bindO (Some (slice_from pmtPayload (unat pointerField))) (\<lambda>pmtPayload'.
     bindO (Some (slice_to pmtPayload' (programInfoLengthOffset + 2))) (\<lambda>fixedPart.
     bindO (Some (sectionLength pmtPayload')) (\<lambda>secLen.
     bindO (Some (index pmtPayload' programInfoLengthOffset)) (\<lambda>hi.
     bindO (Some (index pmtPayload' (programInfoLengthOffset + 1))) (\<lambda>lo.
     let programInfoLength = field12 hi lo in
     bindO (Some (if programInfoLength \<noteq> 0
                  then slice pmtPayload' (programInfoLengthOffset + 2)
                         (unat (of_nat programInfoLengthOffset + 2 + programInfoLength))
                  else Ok [])) (\<lambda>programInfo.
     bindO (filterLoop pmtPayload' wanted
              (PSIHeaderLen + secLen - pmtEsDescriptorStaticLen - CrcLen)
              (of_nat programInfoLengthOffset + 2 + programInfoLength)
              (skipped @ fixedPart @ programInfo)) (\<lambda>fPMT.
     let newSectionLength = (of_nat (length fPMT) :: uint16) - ucast (pointerField - 1);
         sectionLengthBytes = [ucast (drop_bit 8 newSectionLength), ucast newSectionLength :: byte]
     in
     bindO (Some (index fPMT (unat (pointerField + 1)))) (\<lambda>old.
     bindO (Some (update fPMT (unat (pointerField + 1))
                    ((old AND 0xf0) OR sectionLengthBytes ! 0))) (\<lambda>fPMT1.
     bindO (Some (update fPMT1 (unat (pointerField + 2)) (sectionLengthBytes ! 1))) (\<lambda>fPMT2.
     bindO (Some (slice_from fPMT2 (unat pointerField))) (\<lambda>section.
       Some (Ok (fPMT2 @ computeCRC ops section)))))))))))))))"

text \<open>\<open>FilterPMTPacketsToPids\<close>. The result is the pair that the function returns: the
  packets (\<open>None\<close> for nil) and the error (\<open>None\<close> for nil).\<close>

definition FilterPMTPacketsToPids ::
  "packetOps \<Rightarrow> byte list list \<Rightarrow> int list \<Rightarrow> (byte list list option \<times> error option) res option"
where
  "FilterPMTPacketsToPids ops packets wanted =
     (if length packets = 0 then Some (Ok (None, None))
      else if length wanted = 0 then Some (Ok (Some packets, None))
      else case collectPayloads ops packets [] of
        Inl e \<Rightarrow> Some (Ok (None, Some e))
      | Inr pmtPayload \<Rightarrow>
          (case NewPMT pmtPayload of
             None \<Rightarrow> None
           | Some Panic \<Rightarrow> Some Panic
           | Some parsed \<Rightarrow>
               bindO (Some (missingLoop ops (case parsed of Ok p \<Rightarrow> Some p | _ \<Rightarrow> None)
                              (pktPid ops (packets ! 0)) wanted [])) (\<lambda>missingPids.
               let returnError = (if 0 < length missingPids
                                  then Some (ErrPIDNotInPMT missingPids) else None) in
               if length missingPids = length wanted then Some (Ok (None, returnError))
               else
                 bindO (rewritePMT ops packets wanted pmtPayload) (\<lambda>fPMT.
                 bindO (Some (repack ops packets fPMT [])) (\<lambda>filteredPMTPackets.
                   Some (Ok (if filteredPMTPackets = [] then None else Some filteredPMTPackets,
                             returnError)))))))"


lemma index_below:
  "n < length bs \<Longrightarrow> n < 65536 \<Longrightarrow> index bs (unat (of_nat n :: uint16)) = Ok (bs ! n)"
  by (simp add: index_def unat16)

lemma filterHead_enc:
  assumes len: "length pre + length (encStream s) < 65536"
    and wf: "wfStream s"
  shows "filterHead (pre @ encStream s @ rest) (of_nat (length pre)) =
           Ok (ElementaryPid s, of_nat (length (encDescriptors (Descriptors s))))"
proof -
  let ?bs = "pre @ encStream s @ rest"
  let ?il = "length (encDescriptors (Descriptors s))"
  obtain hi lo where e12: "enc12 0xF0 ?il = [hi, lo]"
    by (simp add: enc12_def)
  have f12: "field12 hi lo = of_nat ?il"
    by (rule field12_enc12 [OF _ _ e12]) (use wf in \<open>simp_all add: wfStream_def\<close>)
  have total: "length pre + 5 \<le> length ?bs"
    by (simp add: length_encStream)
  have len5: "length pre + 5 < 65536"
    using len by (simp add: length_encStream)
  have o: "(of_nat (length pre) + 1 :: uint16) = of_nat (length pre + 1)"
    "(of_nat (length pre) + 2 :: uint16) = of_nat (length pre + 2)"
    "(of_nat (length pre) + 3 :: uint16) = of_nat (length pre + 3)"
    "(of_nat (length pre) + 4 :: uint16) = of_nat (length pre + 4)"
    by simp_all
  have b: "?bs ! (length pre + 1) = 0xE0 OR ucast (drop_bit 8 (word_of_int (ElementaryPid s) :: uint16))"
    "?bs ! (length pre + 2) = ucast (word_of_int (ElementaryPid s) :: uint16)"
    "?bs ! (length pre + 3) = hi"
    "?bs ! (length pre + 4) = lo"
    by (simp_all add: nth_append encStream_def e12)
  have i: "index ?bs (unat (of_nat (length pre + 1) :: uint16)) = Ok (?bs ! (length pre + 1))"
    "index ?bs (unat (of_nat (length pre + 2) :: uint16)) = Ok (?bs ! (length pre + 2))"
    "index ?bs (unat (of_nat (length pre + 3) :: uint16)) = Ok (?bs ! (length pre + 3))"
    "index ?bs (unat (of_nat (length pre + 4) :: uint16)) = Ok (?bs ! (length pre + 4))"
    by (rule index_below, use total len5 in linarith, use total len5 in linarith)+
  have pid: "pid13 (0xE0 OR ucast (drop_bit 8 (word_of_int (ElementaryPid s) :: uint16)))
               (ucast (word_of_int (ElementaryPid s) :: uint16)) = ElementaryPid s"
    by (rule pid13_enc) (use wf in \<open>simp_all add: wfStream_def\<close>)
  show ?thesis
    unfolding filterHead_def o
    by (simp only: i b bindR_def res.case pid f12)
qed

text \<open>The streams of a PMT whose PID is requested, in their order.\<close>

definition keptStreams :: "int list \<Rightarrow> PmtElementaryStream list \<Rightarrow> PmtElementaryStream list" where
  "keptStreams wanted ss = filter (\<lambda>s. pidIn wanted (ElementaryPid s)) ss"

lemma filterLoop_prefix:
  assumes "length pre + length (encStreams ss) < 65536"
    and "list_all wfStream ss"
    and "length pre + length (encStreams ss) < bnd + 5"
    and "bnd < 65536"
  shows "filterLoop (pre @ encStreams ss @ rest) wanted (of_nat bnd) (of_nat (length pre)) out =
         filterLoop (pre @ encStreams ss @ rest) wanted (of_nat bnd)
           (of_nat (length pre + length (encStreams ss))) (out @ encStreams (keptStreams wanted ss))"
  using assms
proof (induction ss arbitrary: pre out)
  case Nil
  show ?case
    by (simp add: encStreams_def keptStreams_def)
next
  case (Cons s ss)
  let ?il = "length (encDescriptors (Descriptors s))"
  let ?bs = "pre @ encStreams (s # ss) @ rest"
  have wf: "wfStream s" "list_all wfStream ss"
    using Cons.prems(2) by simp_all
  have bs1: "?bs = pre @ encStream s @ (encStreams ss @ rest)"
    by (simp add: encStreams_Cons)
  have bs3: "?bs = (pre @ encStream s) @ encStreams ss @ rest"
    by (simp add: encStreams_Cons)
  have small: "length pre + 5 + ?il + length (encStreams ss) < 65536"
    using Cons.prems(1) by (simp add: encStreams_Cons length_encStream)
  have lt: "(of_nat (length pre) :: uint16) < of_nat bnd"
    by (rule of_nat_less16)
      (use Cons.prems in \<open>simp_all add: encStreams_Cons length_encStream\<close>)
  have head: "filterHead ?bs (of_nat (length pre)) = Ok (ElementaryPid s, of_nat ?il)"
    unfolding bs1 by (rule filterHead_enc) (use small wf in \<open>simp_all add: length_encStream\<close>)
  have o5: "(of_nat (length pre) + pmtEsDescriptorStaticLen + of_nat ?il :: uint16) =
      of_nat (length pre + 5 + ?il)"
    "(of_nat (length pre) + (pmtEsDescriptorStaticLen + of_nat ?il) :: uint16) =
      of_nat (length pre + 5 + ?il)"
    by (simp_all add: pmtEsDescriptorStaticLen_def)
  have u1: "unat (of_nat (length pre) :: uint16) = length pre"
    by (rule unat16) (use small in linarith)
  have u2: "unat (of_nat (length pre + 5 + ?il) :: uint16) = length pre + 5 + ?il"
    by (rule unat16) (use small in linarith)
  have "slice ?bs (length pre) (length pre + 5 + ?il) = Ok (encStream s)"
    by (simp add: slice_def bs1 length_encStream)
  then have cut: "slice ?bs (unat (of_nat (length pre) :: uint16))
      (unat (of_nat (length pre + 5 + ?il) :: uint16)) = Ok (encStream s)"
    by (simp only: u1 u2)
  have next_pre: "length pre + 5 + ?il = length (pre @ encStream s)"
    by (simp add: length_encStream)
  have IH: "filterLoop ?bs wanted (of_nat bnd) (of_nat (length (pre @ encStream s))) out' =
            filterLoop ?bs wanted (of_nat bnd)
              (of_nat (length (pre @ encStream s) + length (encStreams ss)))
              (out' @ encStreams (keptStreams wanted ss))" for out'
    unfolding bs3
    by (rule Cons.IH)
      (use Cons.prems wf in \<open>simp_all add: encStreams_Cons length_encStream\<close>)
  have fin: "length (pre @ encStream s) + length (encStreams ss) =
      length pre + length (encStreams (s # ss))"
    by (simp add: encStreams_Cons)
  show ?case
  proof (cases "pidIn wanted (ElementaryPid s)")
    case True
    then have k: "keptStreams wanted (s # ss) = s # keptStreams wanted ss"
      by (simp add: keptStreams_def)
    show ?thesis
      apply (subst filterLoop.simps)
      apply (simp only: lt if_True head res.case prod.case True o5 cut)
      apply (simp only: next_pre IH fin k)
      apply (simp only: encStreams_Cons append_assoc)
      done
  next
    case False
    then have k: "keptStreams wanted (s # ss) = keptStreams wanted ss"
      by (simp add: keptStreams_def)
    show ?thesis
      apply (subst filterLoop.simps)
      apply (simp only: lt if_True head res.case prod.case False if_False o5)
      apply (simp only: next_pre IH fin k)
      done
  qed
qed

lemma missingLoop_Some:
  "missingLoop ops (Some p) pmtPid wanted acc =
     Ok (acc @ filter (\<lambda>pid. \<not> PIDExists p pid \<and> pid \<noteq> patPid ops \<and> pid \<noteq> pmtPid) wanted)"
  by (induction wanted arbitrary: acc) simp_all

lemma missingLoop_None:
  "wanted \<noteq> [] \<Longrightarrow> missingLoop ops None pmtPid wanted acc = Panic"
  by (cases wanted) simp_all


lemma hi12_patch:
  assumes "w < 2 ^ 12"
  shows "((0xB0 OR ucast (drop_bit 8 (w::uint16))) AND (0xf0::byte)) OR ucast (drop_bit 8 (w'::uint16)) =
           0xB0 OR ucast (drop_bit 8 w')"
proof -
  have mF0: "(0xF0::byte) = push_bit 4 (mask 4)"
    by (simp add: mask_eq_exp_minus_1)
  have w: "w = w AND mask 12"
    using assms by (simp add: less_mask_eq)
  have "(ucast (drop_bit 8 (w AND mask 12)) :: byte) AND 0xF0 = 0"
    unfolding mF0 by (rule bit_word_eqI) (auto simp: bit_simps)
  then have "(ucast (drop_bit 8 w) :: byte) AND 0xF0 = 0"
    using w by simp
  then show ?thesis
    by (simp add: bit.conj_disj_distrib2)
qed

lemma update_second:
  "update (p # stuffing @ a # b # rest) (length stuffing + 2) v = Ok (p # stuffing @ a # v # rest)"
  by (simp add: update_def numeral_2_eq_2 list_update_append)

lemma update_third:
  "update (p # stuffing @ a # b # c # rest) (length stuffing + 3) v =
     Ok (p # stuffing @ a # b # v # rest)"
  by (simp add: update_def numeral_3_eq_3 list_update_append)

lemma encSection_crc:
  "encSection fixed progInfo ss crc = encSection fixed progInfo ss [] @ crc"
  by (simp add: encSection_def)

lemma rewritePMT_enc:
  assumes wf: "wfPMT img" and n254: "length (imgStuffing img) < 253"
  shows "rewritePMT ops packets wanted (encPMT img) =
    Some (Ok (of_nat (length (imgStuffing img)) # imgStuffing img @
      encSection (imgFixed img) (imgProgramInfo img) (keptStreams wanted (imgStreams img))
        (computeCRC ops (encSection (imgFixed img) (imgProgramInfo img)
           (keptStreams wanted (imgStreams img)) []))))"
proof -
  define stuffing fixed progInfo ss crc trailing where
    "stuffing = imgStuffing img" and "fixed = imgFixed img" and "progInfo = imgProgramInfo img"
    and "ss = imgStreams img" and "crc = imgCrc img" and "trailing = imgTrailing img"
  note d = stuffing_def fixed_def progInfo_def ss_def crc_def trailing_def
  define n pil sl kept nsl where "n = length stuffing" and "pil = length progInfo"
    and "sl = 13 + length progInfo + length (encStreams ss)"
    and "kept = keptStreams wanted ss"
    and "nsl = 13 + length progInfo + length (encStreams (keptStreams wanted ss))"
  have fixed: "length fixed = 7" and crc: "length crc = 4" and wfs: "list_all wfStream ss"
    and small: "sl < 4096" and n: "n < 253"
    using wf n254 by (simp_all add: wfPMT_def d sl_def n_def)
  have kept_le: "length (encStreams kept) \<le> length (encStreams ss)"
    unfolding kept_def keptStreams_def encStreams_def
    by (induction ss) simp_all
  have nsl_small: "nsl < 4096"
    using small kept_le by (simp add: nsl_def sl_def kept_def)
  have pil_small: "pil < 4096"
    using small by (simp add: sl_def pil_def)
  obtain hiS loS where eS: "enc12 0xB0 sl = [hiS, loS]"
    by (simp add: enc12_def)
  obtain hiP loP where eP: "enc12 0xF0 pil = [hiP, loP]"
    by (simp add: enc12_def)
  have hiS: "hiS = 0xB0 OR ucast (drop_bit 8 (of_nat sl :: uint16))"
    using eS by (simp add: enc12_def)
  let ?skipped = "of_nat n # stuffing"
  let ?fixedPart = "[0x02, hiS, loS] @ fixed @ [hiP, loP]"
  let ?section = "encSection fixed progInfo ss crc"
  let ?payload' = "?section @ trailing"
  have sec: "?section = ?fixedPart @ progInfo @ encStreams ss @ crc"
    unfolding encSection_def unfolding sl_def [symmetric] unfolding pil_def [symmetric] eS eP
    by simp
  have payload: "encPMT img = ?skipped @ ?payload'"
    by (simp add: encPMT_def imgSection_def d n_def)
  have lfixedPart: "length ?fixedPart = 12"
    using fixed by simp
  have pf: "PointerField (?skipped @ ?payload') = Ok (of_nat n)"
    by (simp add: PointerField_def index_def)
  have "unat (of_nat (n + 1) :: byte) = (n + 1) mod 256"
    by (simp only: unat_of_nat) simp
  then have u1: "unat (of_nat n + 1 :: byte) = n + 1"
    using n by (simp add: add.commute)
  have "unat (of_nat (n + 2) :: byte) = (n + 2) mod 256"
    by (simp only: unat_of_nat) simp
  then have u2: "unat (of_nat n + 1 + 1 :: byte) = n + 2"
    using n by (simp add: add.commute)
  have "unat (of_nat (n + 3) :: byte) = (n + 3) mod 256"
    by (simp only: unat_of_nat) simp
  then have u3: "unat (of_nat n + 1 + 2 :: byte) = n + 3"
    using n by (simp add: add.commute)
  have minus1: "(of_nat n + 1 - 1 :: byte) = of_nat n"
    by simp
  have skipped: "slice_to (?skipped @ ?payload') (n + 1) = Ok ?skipped"
    by (simp add: slice_to_def n_def)
  have payload': "slice_from (?skipped @ ?payload') (n + 1) = Ok ?payload'"
    by (simp add: slice_from_def n_def)
  have fixedPart: "slice_to ?payload' (programInfoLengthOffset + 2) = Ok ?fixedPart"
    using fixed by (simp add: slice_to_def sec programInfoLengthOffset_def)
  have secLen: "sectionLength ?payload' = Ok (of_nat sl)"
    unfolding sl_def by (rule sectionLength_encSection) (use small in \<open>simp add: sl_def\<close>)
  have hi: "index ?payload' programInfoLengthOffset = Ok hiP"
    using fixed by (simp add: index_def sec nth_append programInfoLengthOffset_def)
  have lo: "index ?payload' (programInfoLengthOffset + 1) = Ok loP"
    using fixed by (simp add: index_def sec nth_append programInfoLengthOffset_def)
  have f12: "field12 hiP loP = of_nat pil"
    by (rule field12_enc12 [OF pil_small _ eP]) simp
  have start: "(of_nat programInfoLengthOffset + 2 + of_nat pil :: uint16) = of_nat (12 + pil)"
    by (simp add: programInfoLengthOffset_def)
  have u12: "unat (of_nat (12 + pil) :: uint16) = 12 + pil"
    by (rule unat16) (use pil_small in simp)
  have cutp: "slice ?payload' (10 + 2) (12 + pil) = Ok progInfo"
    using fixed by (simp add: slice_def sec pil_def)
  have pinfo: "(if (of_nat pil :: uint16) \<noteq> 0
                  then slice ?payload' (programInfoLengthOffset + 2) (unat (of_nat (12 + pil) :: uint16))
                  else Ok []) = Ok progInfo"
  proof (cases "pil = 0")
    case True
    then show ?thesis by (simp add: pil_def)
  next
    case False
    then have "(of_nat pil :: uint16) \<noteq> 0"
      using pil_small by (simp add: word_eq_iff_unsigned [where ?'a = nat] unat16)
    then show ?thesis
      by (simp only: simp_thms if_True u12 programInfoLengthOffset_def cutp)
  qed
  have bound: "PSIHeaderLen + of_nat sl - pmtEsDescriptorStaticLen - CrcLen = (of_nat (sl - 5) :: uint16)"
    by (simp add: PSIHeaderLen_def pmtEsDescriptorStaticLen_def CrcLen_def sl_def)
  let ?pre = "?fixedPart @ progInfo"
  have pre: "?payload' = ?pre @ encStreams ss @ (crc @ trailing)"
    by (simp add: sec)
  have lpayload': "length ?payload' = 3 + sl + length trailing"
    using fixed crc by (simp add: sec sl_def)
  have lpre: "length ?pre = 12 + pil"
    using fixed by (simp add: pil_def)
  have tsmall: "length (?pre @ encStreams ss @ crc) < 65536"
    using small fixed crc by (simp add: sl_def)
  have walk: "filterLoop ?payload' wanted (of_nat (sl - 5)) (of_nat (12 + pil)) out =
      Some (Ok (out @ encStreams kept))" for out
  proof -
    have "filterLoop (?pre @ encStreams ss @ (crc @ trailing)) wanted (of_nat (sl - 5))
        (of_nat (length ?pre)) out =
      filterLoop (?pre @ encStreams ss @ (crc @ trailing)) wanted (of_nat (sl - 5))
        (of_nat (length ?pre + length (encStreams ss))) (out @ encStreams (keptStreams wanted ss))"
    proof (rule filterLoop_prefix)
      show "length ?pre + length (encStreams ss) < 65536"
        using small fixed by (simp add: sl_def)
      show "list_all wfStream ss"
        by (rule wfs)
      show "length ?pre + length (encStreams ss) < sl - 5 + 5"
        using fixed by (simp add: sl_def)
      show "sl - 5 < 65536"
        using small by simp
    qed
    moreover have "\<not> (of_nat (length ?pre + length (encStreams ss)) :: uint16) < of_nat (sl - 5)"
      by (rule of_nat_not_less16) (use small fixed in \<open>simp_all add: sl_def\<close>)
    ultimately show ?thesis
      unfolding pre [symmetric] lpre kept_def
      by (subst (asm) (2) filterLoop.simps) simp
  qed
  let ?fPMT = "?skipped @ ?fixedPart @ progInfo @ encStreams kept"
  have loop: "filterLoop ?payload' wanted (of_nat (sl - 5)) (of_nat (12 + pil))
      (?skipped @ ?fixedPart @ progInfo) = Some (Ok ?fPMT)"
    using walk [of "?skipped @ ?fixedPart @ progInfo"] by simp
  have lf: "length ?fPMT = n + nsl"
    using fixed by (simp add: n_def nsl_def kept_def)
  have "(ucast (of_nat n :: byte) :: uint16) = of_nat n"
    by (rule ucast_byte_of_nat) (use n in simp)
  then have newlen: "(of_nat (length ?fPMT) :: uint16) - ucast (of_nat n + 1 - 1 :: byte) = of_nat nsl"
    unfolding lf minus1 by simp
  have old: "index ?fPMT (n + 2) = Ok hiS"
    by (simp add: index_def nth_append n_def)
  obtain v1 v2 where eN: "enc12 0xB0 nsl = [v1, v2]"
    by (simp add: enc12_def)
  have "(of_nat sl :: uint16) < 2 ^ 12"
    by (rule of_nat_less_4096 [OF small])
  from hi12_patch [OF this, of "of_nat nsl"]
  have v1: "(hiS AND 0xf0) OR [ucast (drop_bit 8 (of_nat nsl :: uint16)), ucast (of_nat nsl :: uint16)] ! 0 = v1"
    using eN by (simp add: hiS enc12_def)
  have v2: "[ucast (drop_bit 8 (of_nat nsl :: uint16)), ucast (of_nat nsl :: uint16) :: byte] ! 1 = v2"
    using eN by (simp add: enc12_def)
  let ?fPMT1 = "?skipped @ [0x02, v1, loS] @ fixed @ [hiP, loP] @ progInfo @ encStreams kept"
  let ?fPMT2 = "?skipped @ [0x02, v1, v2] @ fixed @ [hiP, loP] @ progInfo @ encStreams kept"
  have up1: "update ?fPMT (n + 2) v1 = Ok ?fPMT1"
    using update_second [of "of_nat n" stuffing "0x02" hiS _ v1] by (simp add: n_def)
  have up2: "update ?fPMT1 (n + 3) v2 = Ok ?fPMT2"
    using update_third [of "of_nat n" stuffing "0x02" v1 loS _ v2] by (simp add: n_def)
  have new: "encSection fixed progInfo kept [] = [0x02, v1, v2] @ fixed @ [hiP, loP] @ progInfo @ encStreams kept"
    unfolding encSection_def kept_def unfolding nsl_def [symmetric] unfolding pil_def [symmetric] eN eP
    by simp
  have tail: "slice_from ?fPMT2 (n + 1) = Ok (encSection fixed progInfo kept [])"
    by (simp add: slice_from_def n_def new)
  have result: "?fPMT2 @ computeCRC ops (encSection fixed progInfo kept []) =
      of_nat n # stuffing @ encSection fixed progInfo kept
        (computeCRC ops (encSection fixed progInfo kept []))"
    by (subst (2) encSection_crc) (simp add: new)
  have goal: "of_nat (length (imgStuffing img)) # imgStuffing img @
      encSection (imgFixed img) (imgProgramInfo img) (keptStreams wanted (imgStreams img))
        (computeCRC ops (encSection (imgFixed img) (imgProgramInfo img)
           (keptStreams wanted (imgStreams img)) [])) =
      of_nat n # stuffing @ encSection fixed progInfo kept
        (computeCRC ops (encSection fixed progInfo kept []))"
    by (simp add: d n_def kept_def)
  show ?thesis
    unfolding goal rewritePMT_def payload
    by (simp only: pf bindO_def option.case res.case Let_def u1 u2 u3 skipped payload' fixedPart
        secLen hi lo f12 start pinfo bound loop newlen old v1 v2 up1 up2 tail result)
qed


text \<open>A packet of the input is its header followed by its payload, 188 bytes together;
  the capacity of a packet is what its header leaves of the 188 bytes.\<close>

definition packetOK :: "packetOps \<Rightarrow> byte list \<Rightarrow> bool" where
  "packetOK ops pkt =
     (case pktPayload ops pkt of
        Inl e \<Rightarrow> False
      | Inr pay \<Rightarrow> length (pktHeader ops pkt) + length pay = PacketSize)"

definition capacity :: "packetOps \<Rightarrow> byte list \<Rightarrow> nat" where
  "capacity ops pkt = PacketSize - length (pktHeader ops pkt)"

lemma safeSlice_take:
  "h \<le> PacketSize \<Longrightarrow> safeSlice fPMT 0 (int PacketSize - int h) = Ok (take (PacketSize - h) fPMT)"
  by (auto simp: safeSlice_def sliceInt_def nat_diff_distrib' simp flip: of_nat_diff)

lemma repack_Nil: "repack ops pkts [] out = Ok out"
  by (cases pkts) simp_all

lemma repack_step:
  assumes "length (pktHeader ops pkt) \<le> PacketSize" and "fPMT \<noteq> []"
  shows "repack ops (pkt # pkts) fPMT out =
           repack ops pkts (drop (capacity ops pkt) fPMT)
             (out @ [pktHeader ops pkt @ take (capacity ops pkt) fPMT @
                     replicate (capacity ops pkt - length fPMT) 0xFF])"
proof -
  let ?c = "capacity ops pkt"
  have cut: "safeSlice fPMT 0 (int PacketSize - int (length (pktHeader ops pkt))) = Ok (take ?c fPMT)"
    unfolding capacity_def by (rule safeSlice_take [OF assms(1)])
  have rest: "(if length (take ?c fPMT) < length fPMT then drop (length (take ?c fPMT)) fPMT else []) =
      drop ?c fPMT"
    by (simp add: min_def)
  have pad: "padPacket (pktHeader ops pkt @ take ?c fPMT) =
      pktHeader ops pkt @ take ?c fPMT @ replicate (?c - length fPMT) 0xFF"
    using assms(1) by (auto simp: padPacket_def capacity_def min_def)
  show ?thesis
    using assms(2)
    by (simp only: repack.simps length_greater_0_conv simp_thms if_True cut bindR_def res.case rest pad)
qed

lemma repack_nonempty:
  assumes "\<forall>pkt\<in>set pkts. length (pktHeader ops pkt) \<le> PacketSize"
  shows "\<exists>out'. repack ops pkts fPMT out = Ok (out @ out') \<and> (pkts \<noteq> [] \<and> fPMT \<noteq> [] \<longrightarrow> out' \<noteq> [])"
  using assms
proof (induction pkts arbitrary: fPMT out)
  case Nil
  then show ?case by simp
next
  case (Cons pkt pkts)
  show ?case
  proof (cases "fPMT = []")
    case True
    then show ?thesis by (simp add: repack_Nil)
  next
    case False
    let ?p = "pktHeader ops pkt @ take (capacity ops pkt) fPMT @
                     replicate (capacity ops pkt - length fPMT) 0xFF"
    have h: "length (pktHeader ops pkt) \<le> PacketSize"
      using Cons.prems by simp
    obtain out' where "repack ops pkts (drop (capacity ops pkt) fPMT) (out @ [?p]) = Ok ((out @ [?p]) @ out')"
      using Cons.IH [of "drop (capacity ops pkt) fPMT" "out @ [?p]"] Cons.prems by auto
    then have "repack ops (pkt # pkts) fPMT out = Ok (out @ (?p # out'))"
      by (simp only: repack_step [OF h False]) simp
    then show ?thesis
      by blast
  qed
qed

lemma collectPayloads_length:
  assumes "list_all (packetOK ops) pkts" and "collectPayloads ops pkts acc = Inr pay"
  shows "length pay = length acc + sum_list (map (capacity ops) pkts)"
  using assms
proof (induction pkts arbitrary: acc)
  case Nil
  then show ?case by simp
next
  case (Cons pkt pkts)
  then show ?case
    by (auto simp: packetOK_def capacity_def split: sum.splits)
qed

lemma repack_payload:
  assumes hdr: "\<forall>pkt\<in>set pkts. length (pktHeader ops pkt) \<le> PacketSize"
    and rebuild: "\<forall>pkt\<in>set pkts. \<forall>body. length (pktHeader ops pkt) + length body = PacketSize \<longrightarrow>
        pktPayload ops (pktHeader ops pkt @ body) = Inr body"
    and room: "length fPMT \<le> sum_list (map (capacity ops) pkts)"
  shows "\<exists>out' k. repack ops pkts fPMT out = Ok (out @ out') \<and>
           (\<forall>acc. collectPayloads ops out' acc = Inr (acc @ fPMT @ replicate k 0xFF))"
  using assms
proof (induction pkts arbitrary: fPMT out)
  case Nil
  then show ?case by simp
next
  case (Cons pkt pkts)
  show ?case
  proof (cases "fPMT = []")
    case True
    have "repack ops (pkt # pkts) fPMT out = Ok (out @ []) \<and>
        (\<forall>acc. collectPayloads ops [] acc = Inr (acc @ fPMT @ replicate 0 0xFF))"
      using True by (simp add: repack_Nil)
    then show ?thesis
      by blast
  next
    case False
    let ?c = "capacity ops pkt"
    let ?body = "take ?c fPMT @ replicate (?c - length fPMT) 0xFF"
    let ?p = "pktHeader ops pkt @ ?body"
    have h: "length (pktHeader ops pkt) \<le> PacketSize"
      using Cons.prems(1) by simp
    have "length (pktHeader ops pkt) + length ?body = PacketSize"
      using h by (auto simp: capacity_def min_def)
    then have pay: "pktPayload ops ?p = Inr ?body"
      using Cons.prems(2) by simp
    have room': "length (drop ?c fPMT) \<le> sum_list (map (capacity ops) pkts)"
      using Cons.prems(3) by simp
    obtain out' k where rec: "repack ops pkts (drop ?c fPMT) (out @ [?p]) = Ok ((out @ [?p]) @ out')"
      and col: "\<And>acc. collectPayloads ops out' acc = Inr (acc @ drop ?c fPMT @ replicate k 0xFF)"
      using Cons.IH [of "drop ?c fPMT" "out @ [?p]", OF _ _ room'] Cons.prems(1,2) by auto
    have r: "repack ops (pkt # pkts) fPMT out = Ok (out @ (?p # out'))"
      by (simp only: repack_step [OF h False] rec) simp
    show ?thesis
    proof (cases "?c < length fPMT")
      case True
      then have "\<forall>acc. collectPayloads ops (?p # out') acc = Inr (acc @ fPMT @ replicate k 0xFF)"
        using pay col by simp
      with r show ?thesis
        by blast
    next
      case short: False
      then have d: "drop ?c fPMT = []"
        by simp
      have "out' = []"
        using rec unfolding d by (simp add: repack_Nil)
      then have "\<forall>acc. collectPayloads ops (?p # out') acc =
          Inr (acc @ fPMT @ replicate (?c - length fPMT) 0xFF)"
        using pay short by simp
      with r show ?thesis
        by blast
    qed
  qed
qed


text \<open>A requested PID is counted as missing when the PMT does not have it and it is
  neither the PAT PID nor the PID of the first packet.\<close>

definition countedMissing :: "packetOps \<Rightarrow> byte list list \<Rightarrow> pmt \<Rightarrow> int \<Rightarrow> bool" where
  "countedMissing ops packets p pid \<longleftrightarrow>
     \<not> PIDExists p pid \<and> pid \<noteq> patPid ops \<and> pid \<noteq> pktPid ops (packets ! 0)"

text \<open>The payload the filter builds from the image of a PMT: the pointer field with the
  bytes it skips, and the section of the kept streams with the checksum of that
  section.\<close>

definition filteredPayload :: "packetOps \<Rightarrow> pmtImage \<Rightarrow> int list \<Rightarrow> byte list" where
  "filteredPayload ops img wanted =
     of_nat (length (imgStuffing img)) # imgStuffing img @
     encSection (imgFixed img) (imgProgramInfo img) (keptStreams wanted (imgStreams img))
       (computeCRC ops (encSection (imgFixed img) (imgProgramInfo img)
          (keptStreams wanted (imgStreams img)) []))"

lemma PIDExists_parsedPmt:
  "PIDExists (parsedPmt fixed ss) pid = pidIn (map ElementaryPid ss) pid"
  by (simp add: PIDExists_def Pids_def parsedPmt_def)

lemma filter_length_eq: "length (filter P xs) = length xs \<longleftrightarrow> (\<forall>x\<in>set xs. P x)"
proof (induction xs)
  case Nil
  show ?case by simp
next
  case (Cons x xs)
  have "length (filter P xs) \<noteq> Suc (length xs)"
    using length_filter_le [of P xs] by linarith
  with Cons.IH show ?case
    by auto
qed

lemma Filter_parsed:
  assumes packets: "packets \<noteq> []" and wanted: "wanted \<noteq> []"
    and payload: "collectPayloads ops packets [] = Inr pay"
    and parse: "NewPMT pay = Some (Ok p)"
    and all: "\<forall>pid\<in>set wanted. countedMissing ops packets p pid"
  shows "FilterPMTPacketsToPids ops packets wanted = Some (Ok (None, Some (ErrPIDNotInPMT wanted)))"
proof -
  let ?m = "filter (countedMissing ops packets p) wanted"
  have m: "?m = wanted"
    using all by simp
  have miss: "missingLoop ops (Some p) (pktPid ops (packets ! 0)) wanted [] = Ok ?m"
    unfolding missingLoop_Some countedMissing_def [abs_def] by simp
  show ?thesis
    unfolding FilterPMTPacketsToPids_def
    using packets wanted
    by (simp only: payload sum.case parse option.case res.case miss m bindO_def Let_def
        length_0_conv length_greater_0_conv if_False if_True simp_thms)
qed

lemma Filter_carried:
  assumes wanted: "wanted \<noteq> []"
    and carried: "collectPayloads ops packets [] = Inr (encPMT img)"
    and wf: "wfPMT img" and pf: "length (imgStuffing img) < 253"
  shows "FilterPMTPacketsToPids ops packets wanted =
     (if length (filter (countedMissing ops packets (parsedPmt (imgFixed img) (imgStreams img))) wanted) = length wanted
      then Some (Ok (None, Some (ErrPIDNotInPMT wanted)))
      else bindO (Some (repack ops packets (filteredPayload ops img wanted) []))
             (\<lambda>out. Some (Ok (if out = [] then None else Some out,
                if filter (countedMissing ops packets (parsedPmt (imgFixed img) (imgStreams img))) wanted \<noteq> []
                then Some (ErrPIDNotInPMT (filter (countedMissing ops packets (parsedPmt (imgFixed img) (imgStreams img))) wanted))
                else None))))"
proof -
  let ?m = "filter (countedMissing ops packets (parsedPmt (imgFixed img) (imgStreams img))) wanted"
  have packets: "packets \<noteq> []"
    using carried by (auto simp: encPMT_def)
  have parse: "NewPMT (encPMT img) = Some (Ok (parsedPmt (imgFixed img) (imgStreams img)))"
    by (rule NewPMT_encPMT [OF wf])
  have miss: "missingLoop ops (Some (parsedPmt (imgFixed img) (imgStreams img)))
      (pktPid ops (packets ! 0)) wanted [] = Ok ?m"
    unfolding missingLoop_Some countedMissing_def [abs_def] by simp
  have rw: "rewritePMT ops packets wanted (encPMT img) = Some (Ok (filteredPayload ops img wanted))"
    unfolding filteredPayload_def by (rule rewritePMT_enc [OF wf pf])
  have all: "?m = wanted" if "length ?m = length wanted"
    using that by (simp add: filter_length_eq)
  show ?thesis
  proof (cases "length ?m = length wanted")
    case True
    then have "?m \<noteq> []"
      using wanted by auto
    then show ?thesis
      unfolding FilterPMTPacketsToPids_def
      using packets wanted True all [OF True]
      by (simp only: carried sum.case parse option.case res.case miss bindO_def Let_def
          length_0_conv length_greater_0_conv if_False if_True simp_thms)
  next
    case False
    show ?thesis
      unfolding FilterPMTPacketsToPids_def
      using packets wanted False
      by (simp only: carried sum.case parse option.case res.case miss bindO_def Let_def rw
          length_0_conv length_greater_0_conv if_False if_True simp_thms)
  qed
qed


lemma filteredPayload_nonempty: "filteredPayload ops img wanted \<noteq> []"
  by (simp add: filteredPayload_def)

lemma repack_out:
  assumes "\<forall>pkt\<in>set packets. length (pktHeader ops pkt) \<le> PacketSize" and "packets \<noteq> []"
  obtains out where "repack ops packets (filteredPayload ops img wanted) [] = Ok out" and "out \<noteq> []"
proof -
  from repack_nonempty [OF assms(1)]
  obtain out' where "repack ops packets (filteredPayload ops img wanted) [] = Ok ([] @ out')"
    and "packets \<noteq> [] \<and> filteredPayload ops img wanted \<noteq> [] \<longrightarrow> out' \<noteq> []"
    by blast
  then have "repack ops packets (filteredPayload ops img wanted) [] = Ok out'" and "out' \<noteq> []"
    using assms(2) filteredPayload_nonempty by simp_all
  then show thesis
    by (rule that)
qed

lemma Filter_rebuilds:
  assumes carried: "collectPayloads ops packets [] = Inr (encPMT img)"
    and wf: "wfPMT img" and pf: "length (imgStuffing img) < 253"
    and hdr: "\<forall>pkt\<in>set packets. length (pktHeader ops pkt) \<le> PacketSize"
    and wanted: "wanted \<noteq> []"
    and notall: "length (filter (countedMissing ops packets (parsedPmt (imgFixed img) (imgStreams img))) wanted) \<noteq> length wanted"
  shows "\<exists>out. out \<noteq> [] \<and>
           repack ops packets (filteredPayload ops img wanted) [] = Ok out \<and>
           FilterPMTPacketsToPids ops packets wanted =
             Some (Ok (Some out,
               if filter (countedMissing ops packets (parsedPmt (imgFixed img) (imgStreams img))) wanted \<noteq> []
               then Some (ErrPIDNotInPMT (filter (countedMissing ops packets (parsedPmt (imgFixed img) (imgStreams img))) wanted))
               else None))"
proof -
  have packets: "packets \<noteq> []"
    using carried by (auto simp: encPMT_def)
  obtain out where r: "repack ops packets (filteredPayload ops img wanted) [] = Ok out"
    and o: "out \<noteq> []"
    by (rule repack_out [OF hdr packets])
  have "FilterPMTPacketsToPids ops packets wanted =
      Some (Ok (Some out,
               if filter (countedMissing ops packets (parsedPmt (imgFixed img) (imgStreams img))) wanted \<noteq> []
               then Some (ErrPIDNotInPMT (filter (countedMissing ops packets (parsedPmt (imgFixed img) (imgStreams img))) wanted))
               else None))"
    unfolding Filter_carried [OF wanted carried wf pf]
    using notall o
    by (simp only: r bindO_def option.case res.case if_False if_True simp_thms)
  with o r show ?thesis
    by blast
qed

lemma length_kept:
  "length (encStreams (keptStreams wanted ss)) \<le> length (encStreams ss)"
  unfolding keptStreams_def encStreams_def by (induction ss) simp_all

lemma wfPMT_filtered:
  assumes wf: "wfPMT img"
    and crc: "length (computeCRC ops (encSection (imgFixed img) (imgProgramInfo img)
        (keptStreams wanted (imgStreams img)) [])) = 4"
  shows "wfPMT (img\<lparr>imgStreams := keptStreams wanted (imgStreams img),
      imgCrc := computeCRC ops (encSection (imgFixed img) (imgProgramInfo img)
        (keptStreams wanted (imgStreams img)) []),
      imgTrailing := replicate k 0xFF\<rparr>)"
proof -
  have "list_all wfStream (keptStreams wanted (imgStreams img))"
    using wf by (simp add: wfPMT_def keptStreams_def list_all_iff)
  moreover have "length (replicate k (0xFF::byte)) \<le> 2 \<or> hd (replicate k (0xFF::byte)) = 0xFF"
    by (cases k) simp_all
  ultimately show ?thesis
    using wf crc length_kept [of wanted "imgStreams img"] by (simp add: wfPMT_def)
qed

lemma encPMT_filtered:
  "encPMT (img\<lparr>imgStreams := keptStreams wanted (imgStreams img),
      imgCrc := computeCRC ops (encSection (imgFixed img) (imgProgramInfo img)
        (keptStreams wanted (imgStreams img)) []),
      imgTrailing := replicate k 0xFF\<rparr>) = filteredPayload ops img wanted @ replicate k 0xFF"
  by (simp add: encPMT_def imgSection_def filteredPayload_def)

lemma NewPMT_filtered:
  assumes wf: "wfPMT img"
    and crc: "length (computeCRC ops (encSection (imgFixed img) (imgProgramInfo img)
        (keptStreams wanted (imgStreams img)) [])) = 4"
  shows "NewPMT (filteredPayload ops img wanted @ replicate k 0xFF) =
           Some (Ok (parsedPmt (imgFixed img) (keptStreams wanted (imgStreams img))))"
  using NewPMT_encPMT [OF wfPMT_filtered [OF wf crc, of k]]
  unfolding encPMT_filtered by simp

lemma length_filteredPayload:
  assumes wf: "wfPMT img"
    and crc: "length (computeCRC ops (encSection (imgFixed img) (imgProgramInfo img)
        (keptStreams wanted (imgStreams img)) [])) = 4"
  shows "length (filteredPayload ops img wanted) \<le> length (encPMT img)"
proof -
  have fixed: "length (imgFixed img) = 7" and c: "length (imgCrc img) = 4"
    using wf by (simp_all add: wfPMT_def)
  show ?thesis
    using length_kept [of wanted "imgStreams img"]
    by (simp add: filteredPayload_def encPMT_def imgSection_def
        length_encSection [OF fixed crc] length_encSection [OF fixed c])
qed

lemma Filter_payload:
  assumes carried: "collectPayloads ops packets [] = Inr (encPMT img)"
    and wf: "wfPMT img" and pf: "length (imgStuffing img) < 253"
    and ok: "list_all (packetOK ops) packets"
    and rebuild: "\<forall>pkt\<in>set packets. \<forall>body.
        length (pktHeader ops pkt) + length body = PacketSize \<longrightarrow>
        pktPayload ops (pktHeader ops pkt @ body) = Inr body"
    and crc: "length (computeCRC ops (encSection (imgFixed img) (imgProgramInfo img)
        (keptStreams wanted (imgStreams img)) [])) = 4"
    and wanted: "wanted \<noteq> []"
    and none: "\<forall>pid\<in>set wanted.
        \<not> countedMissing ops packets (parsedPmt (imgFixed img) (imgStreams img)) pid"
  shows "\<exists>out k. out \<noteq> [] \<and>
           FilterPMTPacketsToPids ops packets wanted = Some (Ok (Some out, None)) \<and>
           collectPayloads ops out [] = Inr (filteredPayload ops img wanted @ replicate k 0xFF) \<and>
           NewPMT (filteredPayload ops img wanted @ replicate k 0xFF) =
             Some (Ok (parsedPmt (imgFixed img) (keptStreams wanted (imgStreams img))))"
proof -
  let ?m = "filter (countedMissing ops packets (parsedPmt (imgFixed img) (imgStreams img))) wanted"
  let ?fp = "filteredPayload ops img wanted"
  have hdr: "\<forall>pkt\<in>set packets. length (pktHeader ops pkt) \<le> PacketSize"
  proof
    fix pkt
    assume "pkt \<in> set packets"
    then have "packetOK ops pkt"
      using ok by (simp add: list_all_iff)
    then show "length (pktHeader ops pkt) \<le> PacketSize"
      by (cases "pktPayload ops pkt") (simp_all add: packetOK_def)
  qed
  have m: "?m = []"
    using none by (simp add: filter_empty_conv)
  have notall: "length ?m \<noteq> length wanted"
    using wanted m by simp
  from Filter_rebuilds [OF carried wf pf hdr wanted notall]
  obtain out where r: "repack ops packets ?fp [] = Ok out"
    and f: "FilterPMTPacketsToPids ops packets wanted = Some (Ok (Some out, None))"
    and o: "out \<noteq> []"
    unfolding m by (simp only: simp_thms if_False) blast
  have "length (encPMT img) = length ([]::byte list) + sum_list (map (capacity ops) packets)"
    by (rule collectPayloads_length [OF ok carried])
  then have room: "length ?fp \<le> sum_list (map (capacity ops) packets)"
    using length_filteredPayload [OF wf crc] by simp
  from repack_payload [OF hdr rebuild room, of "[]"] r
  obtain k where "\<forall>acc. collectPayloads ops out acc = Inr (acc @ ?fp @ replicate k 0xFF)"
    by auto
  then have c: "collectPayloads ops out [] = Inr (?fp @ replicate k 0xFF)"
    by simp
  from o f c NewPMT_filtered [OF wf crc, of k] show ?thesis
    by blast
qed



lemma keptStreams_all:
  assumes "set (map ElementaryPid ss) \<subseteq> set wanted"
  shows "keptStreams wanted ss = ss"
  using assms by (auto simp: keptStreams_def pidIn_set filter_id_conv)

lemma length_encPMT_exampleImage: "length (encPMT exampleImage) = 184"
  by (simp add: exampleImage_def encPMT_def imgSection_def encSection_def encStreams_def
      encStream_def encDescriptors_def encDescriptor_def enc12_def)

lemma carried_examplePacket:
  "collectPayloads exampleOps [examplePacket] [] = Inr (encPMT exampleImage)"
  by (simp add: exampleOps_def examplePacket_def)

lemma pf_exampleImage: "length (imgStuffing exampleImage) < 253"
  by (simp add: exampleImage_def)

lemma header_examplePacket: "pktHeader exampleOps examplePacket = [0x47, 0x41, 0x00, 0x10]"
  by (simp add: exampleOps_def examplePacket_def)

lemma hdr_examplePacket:
  "\<forall>pkt\<in>set [examplePacket]. length (pktHeader exampleOps pkt) \<le> PacketSize"
  by (simp add: header_examplePacket PacketSize_def)

lemma ok_examplePacket: "list_all (packetOK exampleOps) [examplePacket]"
  using length_encPMT_exampleImage
  by (simp add: packetOK_def exampleOps_def examplePacket_def PacketSize_def)

lemma rebuild_examplePacket:
  "\<forall>pkt\<in>set [examplePacket]. \<forall>body.
     length (pktHeader exampleOps pkt) + length body = PacketSize \<longrightarrow>
     pktPayload exampleOps (pktHeader exampleOps pkt @ body) = Inr body"
  by (simp add: header_examplePacket) (simp add: exampleOps_def)

lemma pmtPid_examplePacket: "pktPid exampleOps ([examplePacket] ! 0) = 256"
  by (simp add: exampleOps_def examplePacket_def pid13_def)

lemma countedMissing_example:
  "countedMissing exampleOps [examplePacket]
     (parsedPmt (imgFixed exampleImage) (imgStreams exampleImage)) pid \<longleftrightarrow>
   pid \<noteq> 101 \<and> pid \<noteq> 220 \<and> pid \<noteq> 0 \<and> pid \<noteq> 256"
  unfolding countedMissing_def pmtPid_examplePacket
  by (auto simp: PIDExists_def Pids_def parsedPmt_def exampleImage_def exampleOps_def)

text \<open>Claim C3. On an empty packet list \<open>FilterPMTPacketsToPids\<close> returns no packets and
  no error; on an empty PID list, the packets as they are and no error. When the payloads
  parse to a PMT and every requested PID is counted as missing (the PMT does not have it,
  and it is neither the PAT PID nor the PID of the first packet), it returns no packets
  and the error that names the requested PIDs. When the packets carry a well-formed PMT,
  with a pointer field below 253 and headers no longer than a packet: if some requested
  PIDs are counted as missing and others are not, it returns a non-empty packet list and
  the error that names the missing ones; if none is counted as missing, a non-empty packet
  list and no error.\<close>

theorem FilterPMTPacketsToPids_contract:
  "FilterPMTPacketsToPids ops [] ws = Some (Ok (None, None)) \<and>
   (pkts \<noteq> [] \<longrightarrow> FilterPMTPacketsToPids ops pkts [] = Some (Ok (Some pkts, None))) \<and>
   (pkts' \<noteq> [] \<and> wanted' \<noteq> [] \<and> collectPayloads ops pkts' [] = Inr pay \<and>
    NewPMT pay = Some (Ok p) \<and> (\<forall>pid\<in>set wanted'. countedMissing ops pkts' p pid) \<longrightarrow>
      FilterPMTPacketsToPids ops pkts' wanted' = Some (Ok (None, Some (ErrPIDNotInPMT wanted')))) \<and>
   (collectPayloads ops packets [] = Inr (encPMT img) \<and> wfPMT img \<and>
    length (imgStuffing img) < 253 \<and>
    (\<forall>pkt\<in>set packets. length (pktHeader ops pkt) \<le> PacketSize) \<and>
    (\<exists>pid\<in>set wanted. countedMissing ops packets (parsedPmt (imgFixed img) (imgStreams img)) pid) \<and>
    (\<exists>pid\<in>set wanted. \<not> countedMissing ops packets (parsedPmt (imgFixed img) (imgStreams img)) pid) \<longrightarrow>
      (\<exists>out. out \<noteq> [] \<and> FilterPMTPacketsToPids ops packets wanted =
         Some (Ok (Some out, Some (ErrPIDNotInPMT
           (filter (countedMissing ops packets (parsedPmt (imgFixed img) (imgStreams img))) wanted)))))) \<and>
   (collectPayloads ops packets [] = Inr (encPMT img) \<and> wfPMT img \<and>
    length (imgStuffing img) < 253 \<and>
    (\<forall>pkt\<in>set packets. length (pktHeader ops pkt) \<le> PacketSize) \<and> wanted \<noteq> [] \<and>
    (\<forall>pid\<in>set wanted. \<not> countedMissing ops packets (parsedPmt (imgFixed img) (imgStreams img)) pid) \<longrightarrow>
      (\<exists>out. out \<noteq> [] \<and> FilterPMTPacketsToPids ops packets wanted = Some (Ok (Some out, None))))"
proof (intro conjI impI)
  show "FilterPMTPacketsToPids ops [] ws = Some (Ok (None, None))"
    by (simp add: FilterPMTPacketsToPids_def)
next
  assume "pkts \<noteq> []"
  then show "FilterPMTPacketsToPids ops pkts [] = Some (Ok (Some pkts, None))"
    by (simp add: FilterPMTPacketsToPids_def)
next
  assume a: "pkts' \<noteq> [] \<and> wanted' \<noteq> [] \<and> collectPayloads ops pkts' [] = Inr pay \<and>
    NewPMT pay = Some (Ok p) \<and> (\<forall>pid\<in>set wanted'. countedMissing ops pkts' p pid)"
  show "FilterPMTPacketsToPids ops pkts' wanted' = Some (Ok (None, Some (ErrPIDNotInPMT wanted')))"
    by (rule Filter_parsed) (use a in blast)+
next
  let ?m = "filter (countedMissing ops packets (parsedPmt (imgFixed img) (imgStreams img))) wanted"
  assume a: "collectPayloads ops packets [] = Inr (encPMT img) \<and> wfPMT img \<and>
    length (imgStuffing img) < 253 \<and>
    (\<forall>pkt\<in>set packets. length (pktHeader ops pkt) \<le> PacketSize) \<and>
    (\<exists>pid\<in>set wanted. countedMissing ops packets (parsedPmt (imgFixed img) (imgStreams img)) pid) \<and>
    (\<exists>pid\<in>set wanted. \<not> countedMissing ops packets (parsedPmt (imgFixed img) (imgStreams img)) pid)"
  then have carried: "collectPayloads ops packets [] = Inr (encPMT img)" and wf: "wfPMT img"
    and pf: "length (imgStuffing img) < 253"
    and hdr: "\<forall>pkt\<in>set packets. length (pktHeader ops pkt) \<le> PacketSize"
    and some: "\<exists>pid\<in>set wanted. countedMissing ops packets (parsedPmt (imgFixed img) (imgStreams img)) pid"
    and notall': "\<exists>pid\<in>set wanted. \<not> countedMissing ops packets (parsedPmt (imgFixed img) (imgStreams img)) pid"
    by blast+
  have wanted: "wanted \<noteq> []"
    using some by auto
  have some: "?m \<noteq> []"
    using some by (simp add: filter_empty_conv)
  have notall: "length ?m \<noteq> length wanted"
    using notall' by (simp add: filter_length_eq)
  from Filter_rebuilds [OF carried wf pf hdr wanted notall] some
  show "\<exists>out. out \<noteq> [] \<and> FilterPMTPacketsToPids ops packets wanted =
      Some (Ok (Some out, Some (ErrPIDNotInPMT ?m)))"
    by (simp only: if_True simp_thms) blast
next
  let ?m = "filter (countedMissing ops packets (parsedPmt (imgFixed img) (imgStreams img))) wanted"
  assume a: "collectPayloads ops packets [] = Inr (encPMT img) \<and> wfPMT img \<and>
    length (imgStuffing img) < 253 \<and>
    (\<forall>pkt\<in>set packets. length (pktHeader ops pkt) \<le> PacketSize) \<and> wanted \<noteq> [] \<and>
    (\<forall>pid\<in>set wanted. \<not> countedMissing ops packets (parsedPmt (imgFixed img) (imgStreams img)) pid)"
  then have carried: "collectPayloads ops packets [] = Inr (encPMT img)" and wf: "wfPMT img"
    and pf: "length (imgStuffing img) < 253"
    and hdr: "\<forall>pkt\<in>set packets. length (pktHeader ops pkt) \<le> PacketSize"
    and wanted: "wanted \<noteq> []"
    and none': "\<forall>pid\<in>set wanted. \<not> countedMissing ops packets (parsedPmt (imgFixed img) (imgStreams img)) pid"
    by blast+
  have none: "?m = []"
    using none' by (simp add: filter_empty_conv)
  have notall: "length ?m \<noteq> length wanted"
    using wanted none by simp
  from Filter_rebuilds [OF carried wf pf hdr wanted notall]
  show "\<exists>out. out \<noteq> [] \<and> FilterPMTPacketsToPids ops packets wanted = Some (Ok (Some out, None))"
    unfolding none by (simp only: if_False simp_thms) blast
qed

theorem FilterPMTPacketsToPids_contract_witness:
  "FilterPMTPacketsToPids exampleOps [] [101] = Some (Ok (None, None)) \<and>
   FilterPMTPacketsToPids exampleOps [examplePacket] [] = Some (Ok (Some [examplePacket], None)) \<and>
   FilterPMTPacketsToPids exampleOps [examplePacket] [999] =
     Some (Ok (None, Some (ErrPIDNotInPMT [999]))) \<and>
   (\<exists>out. out \<noteq> [] \<and> FilterPMTPacketsToPids exampleOps [examplePacket] [101, 999] =
      Some (Ok (Some out, Some (ErrPIDNotInPMT [999])))) \<and>
   (\<exists>out. out \<noteq> [] \<and> FilterPMTPacketsToPids exampleOps [examplePacket] [0, 220] =
      Some (Ok (Some out, None)))"
proof -
  let ?p = "parsedPmt (imgFixed exampleImage) (imgStreams exampleImage)"
  have parse: "NewPMT (encPMT exampleImage) = Some (Ok ?p)"
    by (rule NewPMT_encPMT [OF wfPMT_exampleImage])
  note facts = carried_examplePacket wfPMT_exampleImage pf_exampleImage hdr_examplePacket parse
  from FilterPMTPacketsToPids_contract [where ops = exampleOps and ws = "[101]"
      and pkts = "[examplePacket]" and pkts' = "[examplePacket]" and wanted' = "[999]"
      and pay = "encPMT exampleImage" and p = ?p
      and packets = "[examplePacket]" and img = exampleImage and wanted = "[101, 999]"]
    facts
  have a: "FilterPMTPacketsToPids exampleOps [] [101] = Some (Ok (None, None)) \<and>
     FilterPMTPacketsToPids exampleOps [examplePacket] [] = Some (Ok (Some [examplePacket], None)) \<and>
     FilterPMTPacketsToPids exampleOps [examplePacket] [999] =
       Some (Ok (None, Some (ErrPIDNotInPMT [999]))) \<and>
     (\<exists>out. out \<noteq> [] \<and> FilterPMTPacketsToPids exampleOps [examplePacket] [101, 999] =
        Some (Ok (Some out, Some (ErrPIDNotInPMT [999]))))"
    by (simp add: countedMissing_example)
  from FilterPMTPacketsToPids_contract [where ops = exampleOps
      and packets = "[examplePacket]" and img = exampleImage and wanted = "[0, 220]"]
    facts
  have b: "\<exists>out. out \<noteq> [] \<and> FilterPMTPacketsToPids exampleOps [examplePacket] [0, 220] =
      Some (Ok (Some out, None))"
    by (simp add: countedMissing_example)
  from a b show ?thesis
    by simp
qed



text \<open>Claim C4. The packets carry a well-formed PMT whose CRC bytes are the checksum of
  its section, each packet is its header and its payload, and a header followed by a body
  that fills the packet has that body as payload. Requested with the PIDs of the streams
  of that PMT, in any order and with repetitions, \<open>FilterPMTPacketsToPids\<close> returns no
  error and packets whose payloads parse to the PMT that the input parses to, with the
  same streams in the same order; and the payload of the output begins with the bytes of
  the input up to the end of the section: pointer field, section_length and CRC are the
  same bytes.\<close>

theorem FilterPMTPacketsToPids_roundtrip:
  assumes carried: "collectPayloads ops packets [] = Inr (encPMT img)"
    and wf: "wfPMT img" and pf: "length (imgStuffing img) < 253"
    and ok: "list_all (packetOK ops) packets"
    and rebuild: "\<forall>pkt\<in>set packets. \<forall>body.
        length (pktHeader ops pkt) + length body = PacketSize \<longrightarrow>
        pktPayload ops (pktHeader ops pkt @ body) = Inr body"
    and canonical: "imgCrc img = computeCRC ops
        (encSection (imgFixed img) (imgProgramInfo img) (imgStreams img) [])"
    and own: "set wanted = set (map ElementaryPid (imgStreams img))"
  shows "\<exists>out pay p.
       FilterPMTPacketsToPids ops packets wanted = Some (Ok (Some out, None)) \<and>
       collectPayloads ops out [] = Inr pay \<and>
       NewPMT (encPMT img) = Some (Ok p) \<and> NewPMT pay = Some (Ok p) \<and>
       ElementaryStreams p = imgStreams img \<and>
       take (1 + length (imgStuffing img) + length (imgSection img)) pay =
         of_nat (length (imgStuffing img)) # imgStuffing img @ imgSection img"
proof -
  let ?p = "parsedPmt (imgFixed img) (imgStreams img)"
  let ?prefix = "of_nat (length (imgStuffing img)) # imgStuffing img @ imgSection img"
  have parse: "NewPMT (encPMT img) = Some (Ok ?p)"
    by (rule NewPMT_encPMT [OF wf])
  have streams: "ElementaryStreams ?p = imgStreams img"
    by (simp add: ElementaryStreams_def parsedPmt_def)
  show ?thesis
  proof (cases "wanted = []")
    case True
    have packets: "packets \<noteq> []"
      using carried by (auto simp: encPMT_def)
    then have "FilterPMTPacketsToPids ops packets wanted = Some (Ok (Some packets, None))"
      using True by (simp add: FilterPMTPacketsToPids_def)
    moreover have "take (1 + length (imgStuffing img) + length (imgSection img)) (encPMT img) = ?prefix"
      by (simp add: encPMT_def)
    ultimately show ?thesis
      using carried parse streams by blast
  next
    case False
    have kept: "keptStreams wanted (imgStreams img) = imgStreams img"
      by (rule keptStreams_all) (simp add: own)
    have c4: "length (computeCRC ops (encSection (imgFixed img) (imgProgramInfo img)
        (keptStreams wanted (imgStreams img)) [])) = 4"
      unfolding kept canonical [symmetric] using wf by (simp add: wfPMT_def)
    have none: "\<forall>pid\<in>set wanted. \<not> countedMissing ops packets ?p pid"
      using own by (auto simp: countedMissing_def PIDExists_parsedPmt pidIn_set)
    have fp: "filteredPayload ops img wanted = ?prefix"
      unfolding filteredPayload_def kept canonical [symmetric] by (simp add: imgSection_def)
    from Filter_payload [OF carried wf pf ok rebuild c4 False none]
    obtain out k where "FilterPMTPacketsToPids ops packets wanted = Some (Ok (Some out, None))"
      and "collectPayloads ops out [] = Inr (?prefix @ replicate k 0xFF)"
      and "NewPMT (?prefix @ replicate k 0xFF) = Some (Ok ?p)"
      unfolding kept fp by blast
    moreover have "take (1 + length (imgStuffing img) + length (imgSection img))
        (?prefix @ replicate k 0xFF) = ?prefix"
      by simp
    ultimately show ?thesis
      using parse streams by blast
  qed
qed

theorem FilterPMTPacketsToPids_roundtrip_witness:
  "\<exists>out pay p.
     FilterPMTPacketsToPids exampleOps [examplePacket] [220, 101, 220] = Some (Ok (Some out, None)) \<and>
     collectPayloads exampleOps out [] = Inr pay \<and>
     NewPMT (encPMT exampleImage) = Some (Ok p) \<and> NewPMT pay = Some (Ok p) \<and>
     ElementaryStreams p = imgStreams exampleImage \<and>
     take (1 + length (imgStuffing exampleImage) + length (imgSection exampleImage)) pay =
       of_nat (length (imgStuffing exampleImage)) # imgStuffing exampleImage @
       imgSection exampleImage"
proof -
  have canonical: "imgCrc exampleImage = computeCRC exampleOps
      (encSection (imgFixed exampleImage) (imgProgramInfo exampleImage)
         (imgStreams exampleImage) [])"
    by (simp add: exampleOps_def exampleImage_def)
  have own: "set [220, 101, 220] = set (map ElementaryPid (imgStreams exampleImage))"
    by (auto simp: exampleImage_def)
  show ?thesis
    by (rule FilterPMTPacketsToPids_roundtrip [OF carried_examplePacket wfPMT_exampleImage
          pf_exampleImage ok_examplePacket rebuild_examplePacket canonical own])
qed


end
